theory Spec2Isabelle
  imports Main "HOL-Library.Sublist"
begin

section \<open>Strings as Python handles them\<close>

text \<open>
  A Python \<open>str\<close> is modelled as a HOL \<open>string\<close>; a \<open>char\<close> stands for the code
  point of the same number (U+0000 to U+00FF). The character classes below are
  Python's, restricted to that range.
\<close>

definition isspace :: "char \<Rightarrow> bool" where
  \<comment> \<open>\<open>str.isspace\<close>: the characters \<open>str.strip()\<close> removes.\<close>
  "isspace c =
     (let n = (of_char c :: nat)
      in (9 \<le> n \<and> n \<le> 13) \<or> (28 \<le> n \<and> n \<le> 32) \<or> n = 133 \<or> n = 160)"

definition lower_char :: "char \<Rightarrow> char" where
  "lower_char c =
     (let n = (of_char c :: nat)
      in if (65 \<le> n \<and> n \<le> 90) \<or> (192 \<le> n \<and> n \<le> 222 \<and> n \<noteq> 215)
         then char_of (n + 32) else c)"

definition lower :: "string \<Rightarrow> string" where
  \<comment> \<open>\<open>str.lower()\<close>\<close>
  "lower s = map lower_char s"

definition lstrip_by :: "(char \<Rightarrow> bool) \<Rightarrow> string \<Rightarrow> string" where
  "lstrip_by p s = dropWhile p s"

definition rstrip_by :: "(char \<Rightarrow> bool) \<Rightarrow> string \<Rightarrow> string" where
  "rstrip_by p s = rev (dropWhile p (rev s))"

definition strip :: "string \<Rightarrow> string" where
  \<comment> \<open>\<open>s.strip()\<close>: leading and trailing whitespace removed.\<close>
  "strip s = rstrip_by isspace (lstrip_by isspace s)"

definition strip_chars :: "string \<Rightarrow> string \<Rightarrow> string" where
  \<comment> \<open>\<open>s.strip(chars)\<close>: \<open>chars\<close> is a set of characters, not a prefix or suffix.\<close>
  "strip_chars chars s =
     rstrip_by (\<lambda>c. c \<in> set chars) (lstrip_by (\<lambda>c. c \<in> set chars) s)"

definition rstrip_chars :: "string \<Rightarrow> string \<Rightarrow> string" where
  \<comment> \<open>\<open>s.rstrip(chars)\<close>: every trailing character that occurs in \<open>chars\<close> is removed.\<close>
  "rstrip_chars chars s = rstrip_by (\<lambda>c. c \<in> set chars) s"

fun join :: "string \<Rightarrow> string list \<Rightarrow> string" where
  \<comment> \<open>\<open>sep.join(xs)\<close>\<close>
  "join sep [] = []"
| "join sep [x] = x"
| "join sep (x # y # ys) = x @ sep @ join sep (y # ys)"

definition newline :: char where
  "newline = CHR 0x0A"

section \<open>Errors\<close>

text \<open>The exceptions the code can meet; \<open>Inl\<close> of a result is a raised exception.\<close>

datatype error =
    HttpError      \<comment> \<open>a call of the mailbox API fails\<close>
  | KeyError       \<comment> \<open>a key is read from a dict that lacks it\<close>
  | OSError        \<comment> \<open>a file or the child process cannot be opened\<close>
  | DecodeError    \<comment> \<open>\<open>urlsafe_b64decode\<close> rejects its input\<close>
  | JSONDecodeError
  | ValueError     \<comment> \<open>\<open>int\<close> rejects its argument\<close>
  | OutOfBoundsDatetime  \<comment> \<open>a timestamp beyond what pandas can hold\<close>

section \<open>Address parsing: \<open>parse_email\<close> (main\_working\_2.py, 28 to 35)\<close>

definition rpartition :: "char \<Rightarrow> string \<Rightarrow> (string \<times> string) option" where
  \<comment> \<open>The text before and after the last occurrence of \<open>c\<close>, if there is one.\<close>
  "rpartition c s =
     (if c \<in> set s
      then Some (rev (drop 1 (dropWhile (\<lambda>x. x \<noteq> c) (rev s))),
                 rev (takeWhile (\<lambda>x. x \<noteq> c) (rev s)))
      else None)"

definition match_name_addr :: "string \<Rightarrow> (string \<times> string) option" where
  \<comment> \<open>\<open>re.match(r'(.*)<(.*)>', full)\<close>, groups 1 and 2. The match is anchored at the
      start and \<open>.\<close> does not match a newline, so the match lies in the first line.
      Both stars are greedy: group 2 ends at the last \<open>>\<close> of the line, and group 1 ends
      at the last \<open><\<close> before it.\<close>
  "match_name_addr full =
     (let line = takeWhile (\<lambda>c. c \<noteq> newline) full
      in case rpartition (CHR ''>'') line of
           None \<Rightarrow> None
         | Some (before_gt, _) \<Rightarrow> rpartition (CHR ''<'') before_gt)"

text \<open>
  What the regular expression itself says: a match is a name, \<open><\<close>, an address and \<open>>\<close>
  at the start of the input, with no line break in the name or the address. Python's
  backtracking tries the longest name first and, for a name, the longest address first.
\<close>

definition is_match :: "string \<Rightarrow> string \<Rightarrow> string \<Rightarrow> bool" where
  "is_match full g1 g2 =
     (\<exists>rest. full = g1 @ ''<'' @ g2 @ ''>'' @ rest \<and> newline \<notin> set g1 \<and> newline \<notin> set g2)"

definition parse_email :: "string \<Rightarrow> string \<times> string" where
  "parse_email full =
     (case match_name_addr full of
        Some (g1, g2) \<Rightarrow> (strip_chars [CHR 0x22] (strip g1), strip g2)
      | None \<Rightarrow> ('''', strip full))"

section \<open>Gmail section: \<open>get_section\<close> (main\_working\_2.py, 87 to 97)\<close>

definition get_section :: "string list \<Rightarrow> string" where
  "get_section label_ids =
     (if ''CATEGORY_SOCIAL'' \<in> set label_ids then ''Social''
      else if ''CATEGORY_PROMOTIONS'' \<in> set label_ids then ''Promotions''
      else if ''CATEGORY_UPDATES'' \<in> set label_ids then ''Updates''
      else if ''CATEGORY_FORUMS'' \<in> set label_ids then ''Forums''
      else ''Primary'')"

text \<open>
  The specification's reading: a fixed priority table, scanned in order; the first
  entry whose identifier the message carries gives the section.
\<close>

definition section_priority :: "(string \<times> string) list" where
  "section_priority =
     [(''CATEGORY_SOCIAL'', ''Social''), (''CATEGORY_PROMOTIONS'', ''Promotions''),
      (''CATEGORY_UPDATES'', ''Updates''), (''CATEGORY_FORUMS'', ''Forums'')]"

definition section_spec :: "string list \<Rightarrow> string" where
  "section_spec label_ids =
     (case find (\<lambda>e. fst e \<in> set label_ids) section_priority of
        Some e \<Rightarrow> snd e
      | None \<Rightarrow> ''Primary'')"

section \<open>Classification: \<open>categorize_email\<close> (main\_working\_2.py, 69 to 84)\<close>

text \<open>
  The external capability (\<open>ollama run mistral\<close> through \<open>subprocess.run\<close>) is a
  parameter: it maps the prompt to the child's standard output, or raises.
\<close>

type_synonym capability = "string \<Rightarrow> error + string"

definition categorize_prompt :: "string \<Rightarrow> string list \<Rightarrow> string" where
  "categorize_prompt text labels =
     ''Categorize the following email into one of these labels: ''
     @ (join '', '' labels @ '', Other'') @ ''.'' @ [newline]
     @ ''Email Content:'' @ [newline] @ text @ [newline] @ ''Return only the label name.''"

definition categorize_try :: "capability \<Rightarrow> string \<Rightarrow> string list \<Rightarrow> error + string" where
  \<comment> \<open>The body of the \<open>try\<close> block.\<close>
  "categorize_try run text labels =
     (case run (categorize_prompt text labels) of
        Inl e \<Rightarrow> Inl e
      | Inr stdout \<Rightarrow>
          (let category = strip stdout
           in Inr (if category \<notin> set labels then ''Other'' else category)))"

definition categorize_email :: "capability \<Rightarrow> string \<Rightarrow> string list \<Rightarrow> error + string" where
  \<comment> \<open>\<open>except Exception: return "Other"\<close>\<close>
  "categorize_email run text labels =
     (case categorize_try run text labels of
        Inl e \<Rightarrow> Inr ''Other''
      | Inr category \<Rightarrow> Inr category)"

section \<open>Forwarded flag\<close>

definition forwarded :: "string \<Rightarrow> string" where
  \<comment> \<open>main\_working\_2.py, line 146: two case-sensitive substring tests.\<close>
  "forwarded subject =
     (if sublist ''Fwd:'' subject \<or> sublist ''FW:'' subject then ''Yes'' else ''No'')"

definition isword :: "char \<Rightarrow> bool" where
  \<comment> \<open>The regular expression class \<open>\w\<close> on \<open>str\<close>: alphanumeric or underscore.\<close>
  "isword c =
     (let n = (of_char c :: nat)
      in (48 \<le> n \<and> n \<le> 57) \<or> (65 \<le> n \<and> n \<le> 90) \<or> n = 95 \<or> (97 \<le> n \<and> n \<le> 122)
         \<or> n = 170 \<or> n = 178 \<or> n = 179 \<or> n = 181 \<or> n = 185 \<or> n = 186
         \<or> (188 \<le> n \<and> n \<le> 190) \<or> (192 \<le> n \<and> n \<le> 214)
         \<or> (216 \<le> n \<and> n \<le> 246) \<or> (248 \<le> n \<and> n \<le> 255))"

definition imatch :: "string \<Rightarrow> string \<Rightarrow> bool" where
  \<comment> \<open>A literal pattern matches at the start of the text, letter case ignored.\<close>
  "imatch pat s = (lower (take (length pat) s) = lower pat)"

fun search_fwd :: "bool \<Rightarrow> string \<Rightarrow> bool" where
  \<comment> \<open>\<open>re.search(r'\b(Fwd|FW):', subject, re.IGNORECASE)\<close>: the first argument tells
      whether the character before the current position is a word character. \<open>\b\<close>
      holds where exactly one of the two neighbours is a word character.\<close>
  "search_fwd prev_word [] = False"
| "search_fwd prev_word (c # cs) =
     ((prev_word \<noteq> isword c \<and> (imatch ''Fwd:'' (c # cs) \<or> imatch ''FW:'' (c # cs)))
      \<or> search_fwd (isword c) cs)"

definition forwarded_regex :: "string \<Rightarrow> string" where
  \<comment> \<open>main\_working\_1.py, line 115.\<close>
  "forwarded_regex subject = (if search_fwd False subject then ''Yes'' else ''No'')"

text \<open>
  The specification's reading of the flag: the subject holds \<open>Fwd\<close> or \<open>FW\<close>, in any
  letter case, as a whole word with a colon right after it. The colon ends the word; the
  word begins at the start of the subject or after a character that is no word character.
\<close>

definition forwarded_spec :: "string \<Rightarrow> bool" where
  "forwarded_spec subject =
     (\<exists>pre w post. subject = pre @ w @ '':'' @ post
        \<and> (lower w = ''fwd'' \<or> lower w = ''fw'')
        \<and> (pre = [] \<or> \<not> isword (last pre)))"

section \<open>The fetched message\<close>

text \<open>
  The dict the mailbox API returns for a message, with the keys the code reads. A key
  that may be absent is an \<open>option\<close>.
\<close>

record part =
  mimeType :: "string option"
  filename :: "string option"
  part_body :: "string option option"  \<comment> \<open>\<open>part["body"]\<close>, and in it \<open>"data"\<close>\<close>

record raw_message =
  headers :: "(string \<times> string) list option"  \<comment> \<open>\<open>payload["headers"]\<close>: name and value\<close>
  body_data :: "string option"  \<comment> \<open>\<open>payload.get("body", {})["data"]\<close>\<close>
  parts :: "part list option"  \<comment> \<open>\<open>payload["parts"]\<close>\<close>
  labelIds :: "string list option"
  internalDate :: "string option"

definition header_value :: "(string \<times> string) list \<Rightarrow> string \<Rightarrow> string \<Rightarrow> string" where
  \<comment> \<open>\<open>next((h["value"] for h in headers if h["name"] == name), default)\<close>\<close>
  "header_value hs name dflt =
     (case find (\<lambda>h. fst h = name) hs of Some h \<Rightarrow> snd h | None \<Rightarrow> dflt)"

subsection \<open>Body: \<open>get_email_body\<close> (main\_working\_2.py, 38 to 50)\<close>

type_synonym decoder = "string \<Rightarrow> error + string"

fun first_plain :: "decoder \<Rightarrow> part list \<Rightarrow> error + string" where
  \<comment> \<open>The loop over the parts, left at the first plain-text part with data.\<close>
  "first_plain dec [] = Inr ''''"
| "first_plain dec (p # ps) =
     (case mimeType p of
        None \<Rightarrow> Inl KeyError
      | Some mt \<Rightarrow>
          if mt = ''text/plain'' then
            (case part_body p of
               None \<Rightarrow> Inl KeyError
             | Some None \<Rightarrow> first_plain dec ps
             | Some (Some d) \<Rightarrow> dec d)
          else first_plain dec ps)"

definition get_email_body :: "decoder \<Rightarrow> raw_message \<Rightarrow> string" where
  \<comment> \<open>\<open>dec\<close> is \<open>base64.urlsafe_b64decode(data).decode("utf-8", errors="ignore")\<close>.
      Any exception gives the empty body.\<close>
  "get_email_body dec payload =
     (case (case body_data payload of
              Some d \<Rightarrow> dec d
            | None \<Rightarrow> (case parts payload of Some ps \<Rightarrow> first_plain dec ps | None \<Rightarrow> Inr ''''))
      of Inl e \<Rightarrow> '''' | Inr body \<Rightarrow> body)"

subsection \<open>Attachments (main\_working\_2.py, 149 to 157)\<close>

fun scan_attachments :: "part list \<Rightarrow> string \<times> string \<Rightarrow> string \<times> string" where
  \<comment> \<open>The loop over the parts; the pair is \<open>(attachment, attachment_names)\<close>.
      \<open>part.get("filename")\<close> is true for a filename that is present and not empty.\<close>
  "scan_attachments [] acc = acc"
| "scan_attachments (p # ps) (attachment, attachment_names) =
     (case filename p of
        None \<Rightarrow> scan_attachments ps (attachment, attachment_names)
      | Some f \<Rightarrow>
          if f \<noteq> [] then scan_attachments ps (''Yes'', attachment_names @ f @ '', '')
          else scan_attachments ps (attachment, attachment_names))"

definition attachments :: "raw_message \<Rightarrow> string \<times> string" where
  "attachments payload =
     (let (attachment, attachment_names) =
            (case parts payload of
               Some ps \<Rightarrow> scan_attachments ps (''No'', '''')
             | None \<Rightarrow> (''No'', ''''))
      in (attachment, rstrip_chars '', '' attachment_names))"

definition part_filenames :: "part list \<Rightarrow> string list" where
  \<comment> \<open>The filenames the parts carry, in part order.\<close>
  "part_filenames ps = filter (\<lambda>f. f \<noteq> []) (List.map_filter filename ps)"

section \<open>The record store as pandas handles it\<close>

text \<open>
  A \<open>DataFrame\<close> is its column names and its rows of cells. The file \<open>emails.csv\<close> is
  its header and its records of text fields, as they stand in the file once the CSV
  quoting is undone. A cell is a string (\<open>Str\<close>; a timestamp is carried as the text
  written for it), an integer (\<open>Num\<close>), a float carried as the text written for it
  (\<open>Flt\<close>), or missing (\<open>NaN\<close>).
\<close>

datatype cell = Str string | Num int | Flt string | NaN

record dataframe =
  columns :: "string list"
  rows :: "cell list list"

record csv_file =
  header :: "string list"
  records :: "string list list"

definition csv_columns :: "string list" where
  \<comment> \<open>main\_working\_2.py, 192 to 196\<close>
  "csv_columns =
     [''From Name'', ''From Email'', ''To Email'', ''Forwarded'', ''Subject'',
      ''Body'', ''Section'', ''Attachment'', ''Attachment Names'', ''Date'',
      ''TimeTaken'', ''Category'']"

subsection \<open>Writing: \<open>to_csv(index=False)\<close>\<close>

function decimal_nat :: "nat \<Rightarrow> string" where
  "decimal_nat n =
     (if n < 10 then [char_of (48 + n)]
      else decimal_nat (n div 10) @ [char_of (48 + n mod 10)])"
  by pat_completeness auto
termination
  by (relation "measure id") auto

definition decimal :: "int \<Rightarrow> string" where
  \<comment> \<open>\<open>str(i)\<close>\<close>
  "decimal i = (if i < 0 then CHR ''-'' # decimal_nat (nat (- i)) else decimal_nat (nat i))"

fun show_cell :: "cell \<Rightarrow> string" where
  \<comment> \<open>The field \<open>to_csv\<close> writes for a cell: a missing value is the empty field.\<close>
  "show_cell (Str s) = s"
| "show_cell (Num i) = decimal i"
| "show_cell (Flt t) = t"
| "show_cell NaN = ''''"

definition render :: "dataframe \<Rightarrow> csv_file" where
  "render df = \<lparr>header = columns df, records = map (map show_cell) (rows df)\<rparr>"

subsection \<open>\<open>pd.concat([df_existing, df_new], ignore_index=True)\<close>\<close>

text \<open>
  For two frames with distinct column names each, as \<open>read_csv\<close> and the column list of
  lines 192 to 196 give them. The result has the union of the columns, those of the
  first frame first, and the rows of the first frame, then those of the second; a column
  a frame lacks is filled with \<open>NaN\<close>. A column of the result that holds only numbers and
  missing values, and not integers only, is a column of floats: its integers become
  floats.
\<close>

definition lay_out :: "string list \<Rightarrow> string list \<Rightarrow> cell list \<Rightarrow> cell list" where
  \<comment> \<open>A row with the column names \<open>names\<close>, laid out under the columns \<open>cols\<close>.\<close>
  "lay_out cols names r =
     map (\<lambda>c. case map_of (zip names r) c of Some v \<Rightarrow> v | None \<Rightarrow> NaN) cols"

definition reindex :: "string list \<Rightarrow> dataframe \<Rightarrow> cell list list" where
  \<comment> \<open>The rows of a frame laid out under other columns.\<close>
  "reindex cols df = map (lay_out cols (columns df)) (rows df)"

fun is_str :: "cell \<Rightarrow> bool" where
  "is_str (Str s) = True"
| "is_str c = False"

fun is_num :: "cell \<Rightarrow> bool" where
  "is_num (Num i) = True"
| "is_num c = False"

fun to_float :: "cell \<Rightarrow> cell" where
  "to_float (Num i) = Flt (decimal i @ ''.0'')"
| "to_float c = c"

definition float_column :: "cell list list \<Rightarrow> nat \<Rightarrow> bool" where
  "float_column rs j =
     (list_all (\<lambda>r. \<not> is_str (r ! j)) rs \<and> list_ex (\<lambda>r. \<not> is_num (r ! j)) rs)"

definition promote :: "nat \<Rightarrow> cell list list \<Rightarrow> cell list list" where
  \<comment> \<open>The rows, each of \<open>n\<close> cells, with the integers of the float columns as floats.\<close>
  "promote n rs =
     map (\<lambda>r. map (\<lambda>j. if float_column rs j then to_float (r ! j) else r ! j) [0..<n]) rs"

definition pd_concat :: "dataframe \<Rightarrow> dataframe \<Rightarrow> dataframe" where
  "pd_concat a b =
     (let cols = columns a @ filter (\<lambda>c. c \<notin> set (columns a)) (columns b)
      in \<lparr>columns = cols, rows = promote (length cols) (reindex cols a @ reindex cols b)\<rparr>)"


subsection \<open>Reading: \<open>read_csv\<close> with its defaults\<close>

text \<open>
  The reader is a parameter of the model (\<open>read_table\<close> of the environment below): what
  is proved of \<open>append_to_csv\<close> holds for every reader. \<open>pandas_read\<close> describes the
  defaults of \<open>pd.read_csv\<close> on a table with a header of distinct, non-empty names, no
  record longer than the header, and fields that are missing-value markers, decimal
  integers of at most fifteen digits, decimal fractions as Python prints them with at
  most two digits after the point, or text that is no number and no truth value. A
  marker is read as \<open>NaN\<close>. A column whose other fields are all integers is a column of
  integers; with a missing value or a fraction in it, a column of numbers is a column of
  floats. Any other column keeps its text.
\<close>

definition na_values :: "string list" where
  "na_values =
     ['''', ''#N/A'', ''#N/A N/A'', ''#NA'', ''-1.#IND'', ''-1.#QNAN'', ''-NaN'', ''-nan'',
      ''1.#IND'', ''1.#QNAN'', ''<NA>'', ''N/A'', ''NA'', ''NULL'', ''NaN'', ''None'',
      ''n/a'', ''nan'', ''null'']"

definition digit_value :: "char \<Rightarrow> int option" where
  "digit_value c =
     (let n = (of_char c :: nat) in if 48 \<le> n \<and> n \<le> 57 then Some (int n - 48) else None)"

fun digits_value :: "int \<Rightarrow> string \<Rightarrow> int option" where
  \<comment> \<open>The number a string of decimal digits writes, continuing from \<open>acc\<close>.\<close>
  "digits_value acc [] = Some acc"
| "digits_value acc (c # cs) =
     (case digit_value c of None \<Rightarrow> None | Some d \<Rightarrow> digits_value (acc * 10 + d) cs)"

definition unsigned :: "string \<Rightarrow> string" where
  "unsigned s = (case s of c # cs \<Rightarrow> if c = CHR ''-'' \<or> c = CHR ''+'' then cs else s | [] \<Rightarrow> s)"

definition int_field :: "string \<Rightarrow> int option" where
  \<comment> \<open>A field that is an integer: an optional sign and one to fifteen digits.\<close>
  "int_field s =
     (let ds = unsigned s
      in if ds = [] \<or> 15 < length ds then None
         else map_option (\<lambda>n. if take 1 s = ''-'' then - n else n) (digits_value 0 ds))"

definition fraction_field :: "string \<Rightarrow> bool" where
  \<comment> \<open>A field that is a fraction in the form Python prints: an optional minus sign,
      the integer part without a leading zero, a point, and one or two digits, the
      second of them not a zero.\<close>
  "fraction_field s =
     (let ds = (if take 1 s = ''-'' then drop 1 s else s);
          ip = takeWhile (\<lambda>c. c \<noteq> CHR ''.'') ds;
          fp = drop 1 (dropWhile (\<lambda>c. c \<noteq> CHR ''.'') ds)
      in ip \<noteq> [] \<and> length ip \<le> 15 \<and> digits_value 0 ip \<noteq> None
         \<and> (ip = ''0'' \<or> take 1 ip \<noteq> ''0'')
         \<and> (length fp = 1 \<or> length fp = 2 \<and> drop 1 fp \<noteq> ''0'')
         \<and> digits_value 0 fp \<noteq> None)"

definition float_field :: "string \<Rightarrow> cell" where
  \<comment> \<open>The cell of a column of floats.\<close>
  "float_field s =
     (if fraction_field s then Flt s
      else case int_field s of
             Some n \<Rightarrow> Flt ((if n = 0 \<and> take 1 s = ''-'' then ''-0'' else decimal n) @ ''.0'')
           | None \<Rightarrow> NaN)"

definition infer_column :: "string list \<Rightarrow> cell list" where
  \<comment> \<open>The cells read from the vals of one column.\<close>
  "infer_column vals =
     (let present = filter (\<lambda>s. s \<notin> set na_values) vals
      in if list_all (\<lambda>s. int_field s \<noteq> None) present \<and> length present = length vals
         then map (\<lambda>s. case int_field s of Some n \<Rightarrow> Num n | None \<Rightarrow> NaN) vals
         else if list_all (\<lambda>s. int_field s \<noteq> None \<or> fraction_field s) present
         then map (\<lambda>s. if s \<in> set na_values then NaN else float_field s) vals
         else map (\<lambda>s. if s \<in> set na_values then NaN else Str s) vals)"

definition pandas_read :: "csv_file \<Rightarrow> dataframe" where
  \<comment> \<open>A record shorter than the header is filled up with missing values.\<close>
  "pandas_read f =
     (let cols = map (\<lambda>j. infer_column (map (\<lambda>r. if j < length r then r ! j else '''')
                                           (records f)))
                   [0..<length (header f)]
      in \<lparr>columns = header f,
          rows = map (\<lambda>i. map (\<lambda>col. col ! i) cols) [0..<length (records f)]\<rparr>)"

subsection \<open>The date: \<open>int(internalDate)\<close> and \<open>pd.to_datetime(timestamp, unit='ms')\<close>\<close>

fun py_digits :: "int \<Rightarrow> string \<Rightarrow> int option" where
  \<comment> \<open>Digits, where single underscores may stand between two digits; the string
      starts with a digit.\<close>
  "py_digits acc [] = None"
| "py_digits acc (c # cs) =
     (case digit_value c of
        None \<Rightarrow> None
      | Some d \<Rightarrow>
          (case cs of
             [] \<Rightarrow> Some (acc * 10 + d)
           | c' # cs' \<Rightarrow>
               if c' = CHR ''_'' then py_digits (acc * 10 + d) cs'
               else py_digits (acc * 10 + d) (c' # cs')))"

definition py_int :: "string \<Rightarrow> error + int" where
  \<comment> \<open>\<open>int(s)\<close> for a string: surrounding whitespace, an optional sign, digits.\<close>
  "py_int s =
     (case (case strip s of
              [] \<Rightarrow> None
            | c # cs \<Rightarrow>
                if c = CHR ''-'' then map_option uminus (py_digits 0 cs)
                else if c = CHR ''+'' then py_digits 0 cs
                else py_digits 0 (c # cs))
      of None \<Rightarrow> Inl ValueError | Some n \<Rightarrow> Inr n)"

definition to_datetime :: "int \<Rightarrow> error + int" where
  \<comment> \<open>A \<open>Timestamp\<close> holds nanoseconds in 64 bits: milliseconds beyond that range
      raise.\<close>
  "to_datetime ms =
     (if - 9223372036854 \<le> ms \<and> ms \<le> 9223372036854 then Inr ms
      else Inl OutOfBoundsDatetime)"

section \<open>The world outside the process\<close>

datatype call =
    LoadConfig
  | Authenticate
  | ListUnread
  | GetMessage string
  | ListLabels
  | CreateLabel string
  | AddLabel string string
  | MarkRead string
  | ReadCsv
  | WriteCsv

datatype event =
    Called call          \<comment> \<open>the process calls out (the call may raise)\<close>
  | RowAppended string   \<comment> \<open>\<open>rows.append\<close> for the message of this id\<close>

record world =
  unread :: "string list"                     \<comment> \<open>ids of the messages labelled UNREAD\<close>
  inbox :: "(string \<times> raw_message) list"      \<comment> \<open>the messages, by id\<close>
  remote_labels :: "(string \<times> string) list"   \<comment> \<open>the mailbox's labels: id and name\<close>
  applied :: "(string \<times> string) list"         \<comment> \<open>labels added: message id, label id\<close>
  config_labels :: "string list option"       \<comment> \<open>\<open>"Label"\<close> of config.json, if the file exists\<close>
  emails_csv :: "csv_file option"             \<comment> \<open>emails.csv, if the file exists\<close>
  trace :: "event list"                       \<comment> \<open>what has happened so far, oldest first\<close>

text \<open>
  What the process cannot decide: which outside calls raise (given all that happened
  before), the decoder, the classification capability, the identifier the mailbox
  gives a new label, the measured duration of the step for a message (a float, as the
  text written for it), the text written for a timestamp, and the table \<open>read_csv\<close>
  reads from a file.
\<close>

record env =
  raises :: "event list \<Rightarrow> call \<Rightarrow> bool"
  decode :: decoder
  ollama :: capability
  new_label_id :: "(string \<times> string) list \<Rightarrow> string \<Rightarrow> string"
  time_taken :: "string \<Rightarrow> string"
  date_text :: "int \<Rightarrow> string"
  read_table :: "csv_file \<Rightarrow> dataframe"

fun call_error :: "call \<Rightarrow> error" where
  "call_error LoadConfig = JSONDecodeError"
| "call_error ReadCsv = OSError"
| "call_error WriteCsv = OSError"
| "call_error c = HttpError"

type_synonym 'a io = "world \<Rightarrow> (error + 'a) \<times> world"

definition io_return :: "'a \<Rightarrow> 'a io" where
  "io_return x w = (Inr x, w)"

definition io_raise :: "error \<Rightarrow> 'a io" where
  "io_raise e w = (Inl e, w)"

definition io_bind :: "'a io \<Rightarrow> ('a \<Rightarrow> 'b io) \<Rightarrow> 'b io" where
  \<comment> \<open>One statement after another: an exception ends the sequence.\<close>
  "io_bind m f w = (case m w of (Inl e, w') \<Rightarrow> (Inl e, w') | (Inr x, w') \<Rightarrow> f x w')"

definition outside :: "env \<Rightarrow> call \<Rightarrow> unit io" where
  "outside e c w =
     (let w' = w\<lparr>trace := trace w @ [Called c]\<rparr>
      in if raises e (trace w) c then (Inl (call_error c), w') else (Inr (), w'))"

subsection \<open>The mailbox API\<close>

definition list_unread :: "env \<Rightarrow> string list io" where
  \<comment> \<open>\<open>messages().list(userId="me", labelIds=["UNREAD"], maxResults=10)\<close>\<close>
  "list_unread e = io_bind (outside e ListUnread) (\<lambda>_ w. (Inr (take 10 (unread w)), w))"

definition get_message :: "env \<Rightarrow> string \<Rightarrow> raw_message io" where
  "get_message e msg_id =
     io_bind (outside e (GetMessage msg_id))
       (\<lambda>_ w. case map_of (inbox w) msg_id of
                 None \<Rightarrow> (Inl HttpError, w)
               | Some full_msg \<Rightarrow> (Inr full_msg, w))"

definition list_labels :: "env \<Rightarrow> (string \<times> string) list io" where
  "list_labels e = io_bind (outside e ListLabels) (\<lambda>_ w. (Inr (remote_labels w), w))"

definition create_label :: "env \<Rightarrow> string \<Rightarrow> string io" where
  \<comment> \<open>\<open>labels().create(body={"name": label_name})\<close>; the answer's \<open>"id"\<close>.\<close>
  "create_label e label_name =
     io_bind (outside e (CreateLabel label_name))
       (\<lambda>_ w. let label_id = new_label_id e (remote_labels w) label_name
               in (Inr label_id, w\<lparr>remote_labels := remote_labels w @ [(label_id, label_name)]\<rparr>))"

definition add_label :: "env \<Rightarrow> string \<Rightarrow> string \<Rightarrow> unit io" where
  \<comment> \<open>\<open>modify(id=msg_id, body={"addLabelIds": [label_id]})\<close>\<close>
  "add_label e msg_id label_id =
     io_bind (outside e (AddLabel msg_id label_id))
       (\<lambda>_ w. (Inr (), w\<lparr>applied := applied w @ [(msg_id, label_id)]\<rparr>))"

definition mark_read :: "env \<Rightarrow> string \<Rightarrow> unit io" where
  \<comment> \<open>\<open>modify(id=msg_id, body={"removeLabelIds": ["UNREAD"]})\<close>\<close>
  "mark_read e msg_id =
     io_bind (outside e (MarkRead msg_id))
       (\<lambda>_ w. (Inr (), w\<lparr>unread := removeAll msg_id (unread w)\<rparr>))"

subsection \<open>\<open>move_to_label\<close> (main\_working\_2.py, 100 to 112)\<close>

definition find_label :: "(string \<times> string) list \<Rightarrow> string \<Rightarrow> string option" where
  \<comment> \<open>The loop of lines 104 to 107: the id of the first label whose lower-cased
      name is the lower-cased \<open>label_name\<close>.\<close>
  "find_label labels label_name =
     map_option fst (find (\<lambda>lbl. lower (snd lbl) = lower label_name) labels)"

definition ensure_label :: "env \<Rightarrow> string \<Rightarrow> string io" where
  \<comment> \<open>Lines 102 to 110: the label's id, created when the lookup gave none.
      \<open>not label_id\<close> is true for \<open>None\<close> and for the empty string.\<close>
  "ensure_label e label_name =
     io_bind (list_labels e)
       (\<lambda>labels. case find_label labels label_name of
                    None \<Rightarrow> create_label e label_name
                  | Some label_id \<Rightarrow>
                      if label_id = [] then create_label e label_name
                      else io_return label_id)"

definition move_to_label :: "env \<Rightarrow> string \<Rightarrow> string \<Rightarrow> unit io" where
  "move_to_label e msg_id label_name =
     io_bind (ensure_label e label_name) (\<lambda>label_id. add_label e msg_id label_id)"

section \<open>The orchestrator: \<open>fetch_and_process_emails\<close> (main\_working\_2.py, 115 to 204)\<close>



definition append_row :: "string \<Rightarrow> cell list list \<Rightarrow> cell list \<Rightarrow> cell list list io" where
  \<comment> \<open>\<open>rows.append(row)\<close>: the list lives in the process; the event is kept for the
      properties about the order of effects.\<close>
  "append_row msg_id rs row w = (Inr (rs @ [row]), w\<lparr>trace := trace w @ [RowAppended msg_id]\<rparr>)"

definition process_message ::
  "env \<Rightarrow> string list \<Rightarrow> string \<Rightarrow> cell list list \<Rightarrow> cell list list io" where
  \<comment> \<open>The body of the loop, lines 133 to 189. No statement of it stands in a
      \<open>try\<close> block.\<close>
  "process_message e labels_list msg_id rs =
     io_bind (get_message e msg_id) (\<lambda>full_msg.
       case headers full_msg of
         None \<Rightarrow> io_raise KeyError
       | Some hs \<Rightarrow>
           (let subject = header_value hs ''Subject'' ''(No Subject)'';
                sender_full = header_value hs ''From'' ''(Unknown Sender)'';
                (sender_name, sender_email) = parse_email sender_full;
                to_full = header_value hs ''To'' '''';
                to_email = snd (parse_email to_full);
                body = get_email_body (decode e) full_msg;
                fwd = forwarded subject;
                (attachment, attachment_names) = attachments full_msg;
                sect = get_section (case labelIds full_msg of Some ids \<Rightarrow> ids | None \<Rightarrow> [])
            in case categorize_email (ollama e) (subject @ [newline] @ body) labels_list of
                 Inl err \<Rightarrow> io_raise err
               | Inr category \<Rightarrow>
                   io_bind (if category \<noteq> ''Other'' then move_to_label e msg_id category
                            else io_return ())
                     (\<lambda>_. case internalDate full_msg of
                             None \<Rightarrow> io_raise KeyError
                           | Some internal \<Rightarrow>
                               (case py_int internal of
                                  Inl err \<Rightarrow> io_raise err
                                | Inr timestamp \<Rightarrow>
                                    (case to_datetime timestamp of
                                       Inl err \<Rightarrow> io_raise err
                                     | Inr date \<Rightarrow>
                                         io_bind
                                           (append_row msg_id rs
                                              [Str sender_name, Str sender_email, Str to_email,
                                               Str fwd, Str subject, Str body, Str sect,
                                               Str attachment, Str attachment_names,
                                               Str (date_text e date),
                                               Flt (time_taken e msg_id), Str category])
                                           (\<lambda>rs'. io_bind (mark_read e msg_id)
                                                     (\<lambda>_. io_return rs')))))))"

fun process_messages ::
  "env \<Rightarrow> string list \<Rightarrow> string list \<Rightarrow> cell list list \<Rightarrow> cell list list io" where
  \<comment> \<open>\<open>for msg in messages\<close>: an exception in the body leaves the loop.\<close>
  "process_messages e labels_list [] rs w = (Inr rs, w)"
| "process_messages e labels_list (msg_id # messages) rs w =
     (case process_message e labels_list msg_id rs w of
        (Inl err, w') \<Rightarrow> (Inl err, w')
      | (Inr rs', w') \<Rightarrow> process_messages e labels_list messages rs' w')"

definition load_labels :: "env \<Rightarrow> string list io" where
  \<comment> \<open>Lines 117 to 122.\<close>
  "load_labels e w =
     (case config_labels w of
        Some labels \<Rightarrow> io_bind (outside e LoadConfig) (\<lambda>_. io_return labels) w
      | None \<Rightarrow> (Inr [], w))"

definition gmail_authenticate :: "env \<Rightarrow> unit io" where
  "gmail_authenticate e = outside e Authenticate"

definition read_csv :: "env \<Rightarrow> dataframe io" where
  \<comment> \<open>\<open>pd.read_csv("emails.csv")\<close>\<close>
  "read_csv e =
     io_bind (outside e ReadCsv)
       (\<lambda>_ w. case emails_csv w of
                 Some f \<Rightarrow> (Inr (read_table e f), w)
               | None \<Rightarrow> (Inl OSError, w))"

definition to_csv :: "env \<Rightarrow> dataframe \<Rightarrow> unit io" where
  \<comment> \<open>\<open>df_final.to_csv("emails.csv", index=False)\<close>\<close>
  "to_csv e df =
     io_bind (outside e WriteCsv) (\<lambda>_ w. (Inr (), w\<lparr>emails_csv := Some (render df)\<rparr>))"

definition append_to_csv :: "env \<Rightarrow> cell list list \<Rightarrow> unit io" where
  \<comment> \<open>Lines 191 to 203.\<close>
  "append_to_csv e rs w =
     (let df_new = \<lparr>columns = csv_columns, rows = rs\<rparr>
      in io_bind
           (case emails_csv w of
              Some _ \<Rightarrow> io_bind (read_csv e) (\<lambda>df_existing. io_return (pd_concat df_existing df_new))
            | None \<Rightarrow> io_return df_new)
           (\<lambda>df_final. to_csv e df_final) w)"

datatype outcome =
    NoUnread        \<comment> \<open>"No unread emails found."\<close>
  | Processed nat   \<comment> \<open>"Processed n emails and saved to emails.csv"\<close>

definition fetch_and_process_emails :: "env \<Rightarrow> outcome io" where
  "fetch_and_process_emails e =
     io_bind (load_labels e) (\<lambda>labels_list.
     io_bind (gmail_authenticate e) (\<lambda>_.
     io_bind (list_unread e) (\<lambda>messages.
       if messages = [] then io_return NoUnread
       else io_bind (process_messages e labels_list messages []) (\<lambda>rs.
            io_bind (append_to_csv e rs) (\<lambda>_.
            io_return (Processed (length rs)))))))"

definition run_events :: "env \<Rightarrow> world \<Rightarrow> event list" where
  \<comment> \<open>What one run adds to the trace.\<close>
  "run_events e w = drop (length (trace w)) (trace (snd (fetch_and_process_emails e w)))"

subsection \<open>Orderings of the effects of a run\<close>

fun marked_after_stored :: "bool \<Rightarrow> event list \<Rightarrow> bool" where
  \<comment> \<open>Every mark-read comes after a write of the store; the flag tells whether the
      store has been written.\<close>
  "marked_after_stored stored [] = True"
| "marked_after_stored stored (Called (MarkRead m) # es) = (stored \<and> marked_after_stored stored es)"
| "marked_after_stored stored (Called WriteCsv # es) = marked_after_stored True es"
| "marked_after_stored stored (ev # es) = marked_after_stored stored es"

fun marked_after_appended :: "string list \<Rightarrow> event list \<Rightarrow> bool" where
  \<comment> \<open>Every mark-read of a message comes after the append of its row; the list holds
      the ids whose rows have been appended.\<close>
  "marked_after_appended seen [] = True"
| "marked_after_appended seen (RowAppended m # es) = marked_after_appended (m # seen) es"
| "marked_after_appended seen (Called (MarkRead m) # es) =
     (m \<in> set seen \<and> marked_after_appended seen es)"
| "marked_after_appended seen (ev # es) = marked_after_appended seen es"

fun stored_after_marks :: "bool \<Rightarrow> event list \<Rightarrow> bool" where
  \<comment> \<open>No mark-read comes after a write of the store.\<close>
  "stored_after_marks stored [] = True"
| "stored_after_marks stored (Called (MarkRead m) # es) = (\<not> stored \<and> stored_after_marks stored es)"
| "stored_after_marks stored (Called WriteCsv # es) = stored_after_marks True es"
| "stored_after_marks stored (ev # es) = stored_after_marks stored es"

fun written_last :: "event list \<Rightarrow> bool" where
  \<comment> \<open>A write of the store is the last event: the store is written at most once, and
      nothing is appended, marked read or called after the write.\<close>
  "written_last [] = True"
| "written_last (Called WriteCsv # es) = (es = [])"
| "written_last (ev # es) = written_last es"

definition create_calls :: "event list \<Rightarrow> nat" where
  "create_calls es = length (filter (\<lambda>ev. case ev of Called (CreateLabel _) \<Rightarrow> True | _ \<Rightarrow> False) es)"

subsection \<open>What a step adds to the trace\<close>

text \<open>
  \<open>emits m P\<close>: from every world, \<open>m\<close> extends the trace by events that satisfy \<open>P\<close>, and
  it leaves the record store as it was unless one of the events is a write of the store.
\<close>

definition emits :: "'a io \<Rightarrow> (event list \<Rightarrow> bool) \<Rightarrow> bool" where
  "emits m P =
     (\<forall>w. \<exists>evs. trace (snd (m w)) = trace w @ evs \<and> P evs
        \<and> (Called WriteCsv \<in> set evs \<or> emails_csv (snd (m w)) = emails_csv w))"

fun is_quiet :: "event \<Rightarrow> bool" where
  "is_quiet (RowAppended m) = False"
| "is_quiet (Called (MarkRead m)) = False"
| "is_quiet (Called WriteCsv) = False"
| "is_quiet ev = True"

definition quiet :: "event list \<Rightarrow> bool" where
  \<comment> \<open>No append of a row, no mark-read, no write of the store.\<close>
  "quiet evs = list_all is_quiet evs"

fun is_mark :: "event \<Rightarrow> bool" where
  "is_mark (Called (MarkRead m)) = True"
| "is_mark ev = False"

definition loop_ok :: "event list \<Rightarrow> bool" where
  \<comment> \<open>Every mark-read follows the append of its row, and the store is not written.\<close>
  "loop_ok evs = ((\<forall>seen. marked_after_appended seen evs) \<and> Called WriteCsv \<notin> set evs)"

definition no_mark :: "event list \<Rightarrow> bool" where
  "no_mark evs = (\<not> list_ex is_mark evs)"

definition store_tail :: "event list \<Rightarrow> bool" where
  \<comment> \<open>What the run does after the loop: no mark-read, and a write of the store only
      as the last event.\<close>
  "store_tail evs = (no_mark evs \<and> written_last evs)"

definition run_ok :: "event list \<Rightarrow> bool" where
  "run_ok evs = (\<exists>a b. evs = a @ b \<and> loop_ok a \<and> store_tail b)"

definition message_events :: "string \<Rightarrow> event list \<Rightarrow> bool" where
  \<comment> \<open>The shape of what the loop body adds for one message.\<close>
  "message_events m evs =
     (\<exists>q. quiet q \<and> (evs = q \<or> evs = q @ [RowAppended m]
                      \<or> evs = q @ [RowAppended m, Called (MarkRead m)]))"

section \<open>A sample mailbox\<close>

definition sample_env :: env where
  \<comment> \<open>No call raises; the capability answers Invoices; the store is read as pandas
      reads it.\<close>
  "sample_env =
     \<lparr>raises = (\<lambda>tr c. False), decode = (\<lambda>d. Inr d), ollama = (\<lambda>p. Inr ''Invoices''),
      new_label_id = (\<lambda>ls n. ''Label_1''), time_taken = (\<lambda>m. ''0.53''),
      date_text = (\<lambda>ms. ''2023-11-14 22:13:20''), read_table = pandas_read\<rparr>"

definition fetch_fault_env :: "string \<Rightarrow> env" where
  \<comment> \<open>As \<open>sample_env\<close>, but fetching the message of the given id raises.\<close>
  "fetch_fault_env m = sample_env\<lparr>raises := (\<lambda>tr c. c = GetMessage m)\<rparr>"


definition sample_message :: raw_message where
  "sample_message =
     \<lparr>headers = Some [(''Subject'', ''Fwd: invoice 42''), (''From'', ''Jane Doe <jane@x.com>'')],
      body_data = Some ''Please find the invoice attached.'', parts = None,
      labelIds = Some [''UNREAD'', ''INBOX''], internalDate = Some ''1700000000000''\<rparr>"

definition sample_world :: world where
  \<comment> \<open>Two unread messages, the candidate label Invoices, no label in the mailbox yet,
      no record store yet.\<close>
  "sample_world =
     \<lparr>unread = [''m1'', ''m2''], inbox = [(''m1'', sample_message), (''m2'', sample_message)],
      remote_labels = [], applied = [], config_labels = Some [''Invoices''],
      emails_csv = None, trace = []\<rparr>"




section \<open>Properties of the pure functions\<close>

lemma rpartition_last:
  assumes "c \<notin> set ys"
  shows "rpartition c (xs @ c # ys) = Some (xs, ys)"
proof -
  have tw: "takeWhile (\<lambda>x. x \<noteq> c) (rev ys @ c # rev xs) = rev ys"
    using assms by (simp add: takeWhile_append)
  have dw: "dropWhile (\<lambda>x. x \<noteq> c) (rev ys @ c # rev xs) = c # rev xs"
    using assms by (simp add: dropWhile_append)
  show ?thesis
    by (simp add: rpartition_def tw dw)
qed

lemma rpartition_none: "c \<notin> set s \<Longrightarrow> rpartition c s = None"
  by (simp add: rpartition_def)

lemma rpartition_before_subset:
  assumes "rpartition c s = Some (u, v)"
  shows "set u \<subseteq> set s"
proof -
  have "u = rev (drop 1 (dropWhile (\<lambda>x. x \<noteq> c) (rev s)))"
    using assms by (simp add: rpartition_def split: if_splits)
  then have "set u \<subseteq> set (dropWhile (\<lambda>x. x \<noteq> c) (rev s))"
    by (auto dest: in_set_dropD)
  also have "\<dots> \<subseteq> set s"
    by (auto dest: set_dropWhileD)
  finally show ?thesis .
qed

text \<open>
  C7. \<open>get_section\<close> returns the first match in the priority order Social, Promotions,
  Updates, Forums: it agrees with the scan of the priority table on every list of label
  identifiers. It returns Primary when none of the four identifiers is in the list, and
  Social for the list of CATEGORY\_PROMOTIONS and CATEGORY\_SOCIAL.
\<close>

theorem get_section_priority:
  "get_section ids = section_spec ids
   \<and> (set ids \<inter> {''CATEGORY_SOCIAL'', ''CATEGORY_PROMOTIONS'', ''CATEGORY_UPDATES'',
                  ''CATEGORY_FORUMS''} = {} \<longrightarrow> get_section ids = ''Primary'')
   \<and> get_section [''CATEGORY_PROMOTIONS'', ''CATEGORY_SOCIAL''] = ''Social''"
  by (simp add: get_section_def section_spec_def section_priority_def)

theorem get_section_priority_witness:
  "get_section [''CATEGORY_FORUMS'', ''CATEGORY_UPDATES''] = ''Updates''
   \<and> section_spec [''CATEGORY_FORUMS'', ''CATEGORY_UPDATES''] = ''Updates''
   \<and> get_section [''INBOX'', ''UNREAD''] = ''Primary''"
proof -
  have none: "set [''INBOX'', ''UNREAD''] \<inter> {''CATEGORY_SOCIAL'', ''CATEGORY_PROMOTIONS'',
      ''CATEGORY_UPDATES'', ''CATEGORY_FORUMS''} = {}"
    by simp
  have upd: "get_section [''CATEGORY_FORUMS'', ''CATEGORY_UPDATES''] = ''Updates''"
    by (simp add: get_section_def)
  from get_section_priority [of "[''CATEGORY_FORUMS'', ''CATEGORY_UPDATES'']"]
  have "section_spec [''CATEGORY_FORUMS'', ''CATEGORY_UPDATES'']
      = get_section [''CATEGORY_FORUMS'', ''CATEGORY_UPDATES'']"
    by simp
  moreover from get_section_priority [of "[''INBOX'', ''UNREAD'']"] none
  have "get_section [''INBOX'', ''UNREAD''] = ''Primary''"
    by blast
  ultimately show ?thesis
    using upd by simp
qed

text \<open>
  C8. For an input \<open>n <a>\<close>, where the address \<open>a\<close> holds no \<open><\<close> and neither part holds
  a line break, \<open>parse_email\<close> returns the name \<open>n\<close> stripped of surrounding whitespace
  and then of surrounding double quotes, with the stripped address. For an input that
  lacks \<open><\<close> or lacks \<open>>\<close> it returns the empty name and the stripped input. The two
  examples of the specification are instances.
\<close>

theorem parse_email_forms:
  "(CHR ''<'' \<notin> set a \<and> newline \<notin> set (n @ a) \<longrightarrow>
      parse_email (n @ ''<'' @ a @ ''>'') = (strip_chars [CHR 0x22] (strip n), strip a))
   \<and> (CHR ''<'' \<notin> set s \<or> CHR ''>'' \<notin> set s \<longrightarrow> parse_email s = ('''', strip s))
   \<and> parse_email ''Jane Doe <jane@x.com>'' = (''Jane Doe'', ''jane@x.com'')
   \<and> parse_email ''plain@x.com'' = ('''', ''plain@x.com'')"
proof (intro conjI impI)
  assume h: "CHR ''<'' \<notin> set a \<and> newline \<notin> set (n @ a)"
  have nl: "newline \<noteq> CHR ''<''" "newline \<noteq> CHR ''>''"
    by (simp_all add: newline_def)
  have line: "takeWhile (\<lambda>c. c \<noteq> newline) (n @ ''<'' @ a @ ''>'') = n @ ''<'' @ a @ ''>''"
    using h nl by (intro takeWhile_eq_all_conv[THEN iffD2]) auto
  have gt: "rpartition (CHR ''>'') ((n @ ''<'' @ a) @ CHR ''>'' # []) = Some (n @ ''<'' @ a, [])"
    by (rule rpartition_last) simp
  have lt: "rpartition (CHR ''<'') (n @ CHR ''<'' # a) = Some (n, a)"
    using h by (intro rpartition_last) simp
  have "match_name_addr (n @ ''<'' @ a @ ''>'') = Some (n, a)"
    unfolding match_name_addr_def line using gt lt by simp
  then show "parse_email (n @ ''<'' @ a @ ''>'') = (strip_chars [CHR 0x22] (strip n), strip a)"
    by (simp add: parse_email_def)
next
  assume h: "CHR ''<'' \<notin> set s \<or> CHR ''>'' \<notin> set s"
  let ?line = "takeWhile (\<lambda>c. c \<noteq> newline) s"
  have sub: "set ?line \<subseteq> set s"
    by (auto dest: set_takeWhileD)
  have "match_name_addr s = None"
  proof (cases "rpartition (CHR ''>'') ?line")
    case None
    then show ?thesis by (simp add: match_name_addr_def)
  next
    case (Some uv)
    obtain u v where uv: "uv = (u, v)" by (cases uv)
    have gt_in: "CHR ''>'' \<in> set s"
      using Some sub by (auto simp: rpartition_def split: if_splits)
    have "set u \<subseteq> set s"
      using rpartition_before_subset Some uv sub by blast
    with h gt_in have "CHR ''<'' \<notin> set u" by auto
    then show ?thesis
      using Some uv by (simp add: match_name_addr_def rpartition_none)
  qed
  then show "parse_email s = ('''', strip s)"
    by (simp add: parse_email_def)
next
  show "parse_email ''Jane Doe <jane@x.com>'' = (''Jane Doe'', ''jane@x.com'')"
    by code_simp
next
  show "parse_email ''plain@x.com'' = ('''', ''plain@x.com'')"
    by code_simp
qed

theorem parse_email_forms_witness:
  "parse_email ('' \"Ann Lee\" '' @ ''<'' @ '' ann@y.org '' @ ''>'') = (''Ann Lee'', ''ann@y.org'')
   \<and> parse_email ''  bob@y.org '' = ('''', ''bob@y.org'')"
proof -
  have h1: "CHR ''<'' \<notin> set '' ann@y.org '' \<and> newline \<notin> set ('' \"Ann Lee\" '' @ '' ann@y.org '')"
    by (simp add: newline_def)
  have h2: "CHR ''<'' \<notin> set ''  bob@y.org '' \<or> CHR ''>'' \<notin> set ''  bob@y.org ''"
    by simp
  have e1: "strip_chars [CHR 0x22] (strip '' \"Ann Lee\" '') = ''Ann Lee''"
    by code_simp
  have e2: "strip '' ann@y.org '' = ''ann@y.org''"
    by code_simp
  have e3: "strip ''  bob@y.org '' = ''bob@y.org''"
    by code_simp
  show ?thesis
    using parse_email_forms [of "'' ann@y.org ''" "'' \"Ann Lee\" ''" "''  bob@y.org ''"] h1 h2 e1 e2 e3
    by simp
qed

text \<open>
  C4. Whatever the capability answers, and also when it raises, \<open>categorize_email\<close>
  returns a value, never an exception, and the value is one of the candidate labels or
  the string Other. For the candidates Work and Personal the result is Work, Personal
  or Other.
\<close>

theorem categorize_email_total:
  "(\<exists>c. categorize_email run text labels = Inr c \<and> (c \<in> set labels \<or> c = ''Other''))
   \<and> categorize_email run text [''Work'', ''Personal'']
       \<in> {Inr ''Work'', Inr ''Personal'', Inr ''Other''}"
  by (auto simp: categorize_email_def categorize_try_def Let_def split: sum.splits)

theorem categorize_email_total_witness:
  "categorize_email (\<lambda>p. Inl OSError) ''Invoice 42'' [''Work'', ''Personal''] = Inr ''Other''
   \<and> categorize_email (\<lambda>p. Inr (''Work'' @ [newline] @ ''Personal'')) ''Invoice 42''
        [''Work'', ''Personal''] = Inr ''Other''
   \<and> categorize_email (\<lambda>p. Inr ('' Personal'' @ [newline])) ''Invoice 42''
        [''Work'', ''Personal''] = Inr ''Personal''"
proof -
  have a: "categorize_email (\<lambda>p. Inl OSError) ''Invoice 42'' [''Work'', ''Personal''] = Inr ''Other''"
    by code_simp
  have b: "categorize_email (\<lambda>p. Inr (''Work'' @ [newline] @ ''Personal'')) ''Invoice 42''
        [''Work'', ''Personal''] = Inr ''Other''"
    by code_simp
  have c: "categorize_email (\<lambda>p. Inr ('' Personal'' @ [newline])) ''Invoice 42''
        [''Work'', ''Personal''] = Inr ''Personal''"
    by code_simp
  show ?thesis
    using categorize_email_total [of "\<lambda>p. Inl OSError" "''Invoice 42''" "[''Work'', ''Personal'']"] a b c
    by simp
qed

text \<open>
  C10. The membership test on the capability's answer is exact: the result is the
  stripped answer when that string is itself one of the candidate labels, and Other in
  every other case, so an answer that differs from a candidate in letter case or that
  wraps a candidate in other text gives Other.
\<close>

theorem categorize_email_exact:
  "run (categorize_prompt text labels) = Inr out \<Longrightarrow>
   categorize_email run text labels
     = Inr (if strip out \<in> set labels then strip out else ''Other'')"
  by (simp add: categorize_email_def categorize_try_def)

theorem categorize_email_exact_witness:
  "categorize_email (\<lambda>p. Inr ''work'') ''Invoice 42'' [''Work'', ''Personal''] = Inr ''Other''
   \<and> categorize_email (\<lambda>p. Inr ''Label: Work'') ''Invoice 42'' [''Work'', ''Personal'']
       = Inr ''Other''"
proof -
  have s1: "strip ''work'' = ''work''"
    by code_simp
  have s2: "strip ''Label: Work'' = ''Label: Work''"
    by code_simp
  show ?thesis
    using categorize_email_exact [of "\<lambda>p. Inr ''work''" "''Invoice 42''" "[''Work'', ''Personal'']" "''work''"]
      categorize_email_exact [of "\<lambda>p. Inr ''Label: Work''" "''Invoice 42''" "[''Work'', ''Personal'']"
        "''Label: Work''"] s1 s2
    by simp
qed

section \<open>The address pattern of \<open>parse_email\<close> as a regular expression\<close>

lemma rpartition_Some:
  assumes "rpartition c s = Some (u, v)"
  shows "s = u @ c # v \<and> c \<notin> set v"
proof -
  have "c \<in> set s"
    using assms by (simp add: rpartition_def split: if_splits)
  then obtain xs ys where s: "s = xs @ c # ys" "c \<notin> set ys"
    using split_list_last by fastforce
  then have "rpartition c s = Some (xs, ys)"
    by (simp add: rpartition_last)
  then show ?thesis
    using assms s by simp
qed

lemma first_line:
  assumes "newline \<notin> set x"
  shows "takeWhile (\<lambda>c. c \<noteq> newline) (x @ rest) = x @ takeWhile (\<lambda>c. c \<noteq> newline) rest"
  using assms by (simp add: takeWhile_append)

lemma last_gt_prefix:
  assumes "x @ CHR ''>'' # t = b @ CHR ''>'' # a" and "CHR ''>'' \<notin> set a"
  shows "\<exists>us. b = x @ us"
proof -
  from assms(1) obtain us where
    "(x = b @ us \<and> us @ CHR ''>'' # t = CHR ''>'' # a) \<or> (x @ us = b \<and> CHR ''>'' # t = us @ CHR ''>'' # a)"
    by (auto simp: append_eq_append_conv2)
  then show ?thesis
  proof
    assume h: "x = b @ us \<and> us @ CHR ''>'' # t = CHR ''>'' # a"
    have "us = []"
    proof (cases us)
      case Nil
      then show ?thesis .
    next
      case (Cons u us')
      then have "a = us' @ CHR ''>'' # t"
        using h by simp
      then show ?thesis
        using assms(2) by simp
    qed
    then show ?thesis
      using h by simp
  next
    assume "x @ us = b \<and> CHR ''>'' # t = us @ CHR ''>'' # a"
    then show ?thesis by blast
  qed
qed

lemma last_lt_longest:
  assumes "h1 @ CHR ''<'' # r = g1 @ CHR ''<'' # g2" and "CHR ''<'' \<notin> set g2"
  shows "length h1 < length g1 \<or> (h1 = g1 \<and> r = g2)"
proof -
  from assms(1) obtain vs where
    "(h1 = g1 @ vs \<and> vs @ CHR ''<'' # r = CHR ''<'' # g2) \<or> (h1 @ vs = g1 \<and> CHR ''<'' # r = vs @ CHR ''<'' # g2)"
    by (auto simp: append_eq_append_conv2)
  then show ?thesis
  proof
    assume h: "h1 = g1 @ vs \<and> vs @ CHR ''<'' # r = CHR ''<'' # g2"
    have "vs = []"
    proof (cases vs)
      case Nil
      then show ?thesis .
    next
      case (Cons v vs')
      then have "g2 = vs' @ CHR ''<'' # r"
        using h by simp
      then show ?thesis
        using assms(2) by simp
    qed
    then show ?thesis
      using h by simp
  next
    assume h: "h1 @ vs = g1 \<and> CHR ''<'' # r = vs @ CHR ''<'' # g2"
    show ?thesis
    proof (cases vs)
      case Nil
      then show ?thesis using h by simp
    next
      case (Cons v vs')
      then have "length h1 < length g1"
        using h by auto
      then show ?thesis ..
    qed
  qed
qed

lemma match_name_addr_sound:
  assumes "match_name_addr full = Some (g1, g2)"
  shows "is_match full g1 g2"
proof -
  let ?line = "takeWhile (\<lambda>c. c \<noteq> newline) full"
  obtain b a where gt: "rpartition (CHR ''>'') ?line = Some (b, a)"
    and lt: "rpartition (CHR ''<'') b = Some (g1, g2)"
    using assms by (auto simp: match_name_addr_def split: option.splits)
  have line: "?line = b @ CHR ''>'' # a" and b: "b = g1 @ CHR ''<'' # g2"
    using rpartition_Some [OF gt] rpartition_Some [OF lt] by simp_all
  have "newline \<notin> set ?line"
    by (auto dest: set_takeWhileD)
  then have nl: "newline \<notin> set g1" "newline \<notin> set g2"
    by (simp_all add: line b)
  have "full = ?line @ dropWhile (\<lambda>c. c \<noteq> newline) full"
    by simp
  then have "full = g1 @ ''<'' @ g2 @ ''>'' @ (a @ dropWhile (\<lambda>c. c \<noteq> newline) full)"
    by (simp add: line b)
  then show ?thesis
    unfolding is_match_def using nl by blast
qed

lemma match_name_addr_greedy:
  assumes h: "is_match full h1 h2"
  shows "\<exists>g1 g2. match_name_addr full = Some (g1, g2)
      \<and> (length h1 < length g1 \<or> (h1 = g1 \<and> length h2 \<le> length g2))"
proof -
  let ?line = "takeWhile (\<lambda>c. c \<noteq> newline) full"
  obtain rest where full: "full = h1 @ ''<'' @ h2 @ ''>'' @ rest"
    and nl: "newline \<notin> set h1" "newline \<notin> set h2"
    using h unfolding is_match_def by blast
  let ?x = "h1 @ CHR ''<'' # h2"
  let ?t = "takeWhile (\<lambda>c. c \<noteq> newline) rest"
  have "newline \<notin> set (?x @ ''>'')"
    using nl by (simp add: newline_def)
  then have "takeWhile (\<lambda>c. c \<noteq> newline) ((?x @ ''>'') @ rest) = (?x @ ''>'') @ ?t"
    by (rule first_line)
  then have line: "?line = ?x @ CHR ''>'' # ?t"
    by (simp add: full)
  then have "CHR ''>'' \<in> set ?line"
    by simp
  then obtain b a where gt: "rpartition (CHR ''>'') ?line = Some (b, a)"
    by (auto simp: rpartition_def)
  have "?x @ CHR ''>'' # ?t = b @ CHR ''>'' # a" "CHR ''>'' \<notin> set a"
    using rpartition_Some [OF gt] line by simp_all
  then obtain us where b: "b = ?x @ us"
    using last_gt_prefix by blast
  then have "CHR ''<'' \<in> set b"
    by simp
  then obtain g1 g2 where lt: "rpartition (CHR ''<'') b = Some (g1, g2)"
    by (auto simp: rpartition_def)
  have "h1 @ CHR ''<'' # (h2 @ us) = g1 @ CHR ''<'' # g2" "CHR ''<'' \<notin> set g2"
    using rpartition_Some [OF lt] b by simp_all
  then have "length h1 < length g1 \<or> (h1 = g1 \<and> h2 @ us = g2)"
    by (rule last_lt_longest)
  then have "length h1 < length g1 \<or> (h1 = g1 \<and> length h2 \<le> length g2)"
    by auto
  moreover have "match_name_addr full = Some (g1, g2)"
    using gt lt by (simp add: match_name_addr_def)
  ultimately show ?thesis
    by blast
qed

text \<open>
  \<open>match_name_addr\<close> is the regular expression: it finds a match exactly when there is
  one, and the match it finds has the longest name and, for that name, the longest
  address.
\<close>

lemma match_name_addr_regex:
  "(match_name_addr full = None \<longleftrightarrow> (\<forall>h1 h2. \<not> is_match full h1 h2))
   \<and> (match_name_addr full = Some (g1, g2) \<longrightarrow>
        is_match full g1 g2
        \<and> (\<forall>h1 h2. is_match full h1 h2 \<longrightarrow>
              length h1 < length g1 \<or> (h1 = g1 \<and> length h2 \<le> length g2)))"
proof (intro conjI impI iffI allI)
  fix h1 h2
  assume "match_name_addr full = None"
  then show "\<not> is_match full h1 h2"
    using match_name_addr_greedy [of full h1 h2] by auto
next
  assume none: "\<forall>h1 h2. \<not> is_match full h1 h2"
  show "match_name_addr full = None"
  proof (cases "match_name_addr full")
    case None
    then show ?thesis .
  next
    case (Some g)
    then have "is_match full (fst g) (snd g)"
      by (intro match_name_addr_sound) simp
    then show ?thesis
      using none by blast
  qed
next
  assume "match_name_addr full = Some (g1, g2)"
  then show "is_match full g1 g2"
    by (rule match_name_addr_sound)
next
  fix h1 h2
  assume "match_name_addr full = Some (g1, g2)" "is_match full h1 h2"
  then show "length h1 < length g1 \<or> (h1 = g1 \<and> length h2 \<le> length g2)"
    using match_name_addr_greedy [of full h1 h2] by auto
qed

section \<open>Forwarded flag and attachments\<close>

text \<open>
  C1. \<open>forwarded\<close> of main\_working\_2.py tests for the substrings \<open>Fwd:\<close> and \<open>FW:\<close> as
  they are written: the lower-case subject \<open>fwd: quarterly report\<close> gives No, and
  \<open>xFwd: quarterly report\<close>, where \<open>Fwd\<close> is no whole word, gives Yes. The regular
  expression of main\_working\_1.py gives Yes and No on the same two subjects.
\<close>

theorem forwarded_substring_test:
  "forwarded ''fwd: quarterly report'' = ''No''
   \<and> forwarded ''xFwd: quarterly report'' = ''Yes''
   \<and> forwarded_regex ''fwd: quarterly report'' = ''Yes''
   \<and> forwarded_regex ''xFwd: quarterly report'' = ''No''"
  by code_simp

text \<open>
  C9. A single attachment named \<open>Q3,\<close> gives the attachment names \<open>Q3\<close>: \<open>rstrip\<close>
  takes the filename's own comma with the separator, where the filenames joined by the
  separator are \<open>Q3,\<close>.
\<close>

theorem attachment_names_rstrip:
  "attachments
     \<lparr>headers = Some [], body_data = None,
      parts = Some [\<lparr>mimeType = Some ''application/pdf'', filename = Some ''Q3,'',
                      part_body = Some None\<rparr>],
      labelIds = None, internalDate = Some ''0''\<rparr> = (''Yes'', ''Q3'')
   \<and> join '', ''
        (part_filenames [\<lparr>mimeType = Some ''application/pdf'', filename = Some ''Q3,'',
                           part_body = Some None\<rparr>]) = ''Q3,''"
  by code_simp

lemma scan_attachments_eq:
  "scan_attachments ps (att, names) =
     (if part_filenames ps = [] then att else ''Yes'',
      names @ concat (map (\<lambda>f. f @ '', '') (part_filenames ps)))"
proof (induction ps arbitrary: att names)
  case Nil
  then show ?case by (simp add: part_filenames_def List.map_filter_simps)
next
  case (Cons p ps)
  show ?case
  proof (cases "filename p")
    case None
    then show ?thesis
      using Cons.IH [of att names] by (simp add: part_filenames_def List.map_filter_simps)
  next
    case (Some f)
    then show ?thesis
      using Cons.IH [of att names] Cons.IH [of "''Yes''" "names @ f @ '', ''"]
      by (simp add: part_filenames_def List.map_filter_simps)
  qed
qed

lemma concat_sep_join:
  "fs \<noteq> [] \<Longrightarrow> concat (map (\<lambda>f. f @ sep) fs) = join sep fs @ sep"
  by (induction sep fs rule: join.induct) simp_all

lemma rstrip_chars_sep:
  assumes "s \<noteq> []" and "last s \<noteq> CHR '',''" and "last s \<noteq> CHR '' ''"
  shows "rstrip_chars '', '' (s @ '', '') = s"
proof -
  obtain t c where s: "s = t @ [c]"
    using assms(1) by (metis append_butlast_last_id)
  with assms have c: "c \<noteq> CHR '',''" "c \<noteq> CHR '' ''"
    by simp_all
  show ?thesis
    using c by (simp add: s rstrip_chars_def rstrip_by_def)
qed

lemma join_last:
  "fs \<noteq> [] \<Longrightarrow> last fs \<noteq> [] \<Longrightarrow> join sep fs \<noteq> [] \<and> last (join sep fs) = last (last fs)"
  by (induction sep fs rule: join.induct) auto

text \<open>
  What does hold of the attachment fields: the flag is Yes exactly when a part carries a
  filename, and the names are the filenames joined by the separator whenever the last
  filename does not end in a comma or a space.
\<close>

lemma attachments_flag:
  "fst (attachments payload) =
     (if (case parts payload of Some ps \<Rightarrow> part_filenames ps \<noteq> [] | None \<Rightarrow> False)
      then ''Yes'' else ''No'')"
  by (simp add: attachments_def scan_attachments_eq split: option.splits)

lemma attachments_names_join:
  assumes "parts payload = Some ps" and "part_filenames ps \<noteq> []"
    and "last (last (part_filenames ps)) \<noteq> CHR '',''"
    and "last (last (part_filenames ps)) \<noteq> CHR '' ''"
  shows "snd (attachments payload) = join '', '' (part_filenames ps)"
proof -
  have ne: "last (part_filenames ps) \<noteq> []"
    using assms(2) last_in_set [of "part_filenames ps"] by (auto simp: part_filenames_def)
  have j: "join '', '' (part_filenames ps) \<noteq> []"
      "last (join '', '' (part_filenames ps)) = last (last (part_filenames ps))"
    using join_last [OF assms(2) ne] by simp_all
  have "snd (attachments payload)
      = rstrip_chars '', '' (join '', '' (part_filenames ps) @ '', '')"
    using assms(1,2) by (simp add: attachments_def scan_attachments_eq concat_sep_join)
  then show ?thesis
    using rstrip_chars_sep [of "join '', '' (part_filenames ps)"] j assms(3,4) by simp
qed

section \<open>The record store\<close>

























section \<open>The forwarded flag of main\_working\_1.py as a regular expression\<close>

lemma lower_char_cases:
  assumes "lower_char x = y" and "of_char y = (k::nat)" and "32 \<le> k"
  shows "x = y \<or> of_char x = k - 32"
proof (cases "lower_char x = x")
  case True
  then show ?thesis using assms(1) by simp
next
  case False
  let ?n = "of_char x :: nat"
  have up: "(65 \<le> ?n \<and> ?n \<le> 90) \<or> (192 \<le> ?n \<and> ?n \<le> 222 \<and> ?n \<noteq> 215)"
    using False by (auto simp: lower_char_def Let_def split: if_splits)
  then have y: "y = char_of (?n + 32)"
    using assms(1) by (auto simp: lower_char_def Let_def)
  have "?n + 32 < 256"
    using up by auto
  then have "of_char y = ?n + 32"
    using y by simp
  then show ?thesis
    using assms(2) by simp
qed

lemma lower_char_f:
  assumes "lower_char x = CHR ''f''"
  shows "isword x"
proof -
  have "x = CHR ''f'' \<or> of_char x = (102::nat) - 32"
    by (rule lower_char_cases [OF assms]) simp_all
  then show ?thesis
  proof
    assume "x = CHR ''f''"
    then show ?thesis by (simp add: isword_def)
  next
    assume "of_char x = (102::nat) - 32"
    then have "of_char x = (70::nat)" by simp
    then show ?thesis by (simp add: isword_def)
  qed
qed

lemma lower_char_colon: "lower_char x = CHR '':'' \<longleftrightarrow> x = CHR '':''"
proof
  assume a: "lower_char x = CHR '':''"
  have "x = CHR '':'' \<or> of_char x = (58::nat) - 32"
    by (rule lower_char_cases [OF a]) simp_all
  then show "x = CHR '':''"
  proof
    assume "of_char x = (58::nat) - 32"
    then have n: "of_char x = (26::nat)" by simp
    then have "lower_char x = x"
      by (simp add: lower_char_def)
    then show ?thesis using a by simp
  qed
next
  assume "x = CHR '':''"
  then show "lower_char x = CHR '':''"
    by (simp add: lower_char_def)
qed

lemma lower_patterns: "lower ''Fwd:'' = ''fwd'' @ '':''" "lower ''FW:'' = ''fw'' @ '':''"
  by code_simp+

lemma imatch_iff:
  assumes pat: "lower pat = p @ '':''"
  shows "imatch pat s \<longleftrightarrow> (\<exists>w post. s = w @ '':'' @ post \<and> lower w = p)"
proof
  have len: "length pat = Suc (length p)"
    using arg_cong [OF pat, of length] by (simp add: lower_def)
  assume "imatch pat s"
  then have t: "lower (take (length pat) s) = p @ '':''"
    by (simp add: imatch_def pat)
  have "length (lower (take (length pat) s)) = length (p @ '':'')"
    by (simp only: t)
  then have "length (take (length pat) s) = Suc (length p)"
    by (simp add: lower_def)
  then obtain w d where wd: "take (length pat) s = w @ [d]"
    by (metis length_Suc_conv_rev)
  then have "lower w = p" "lower_char d = CHR '':''"
    using t by (simp_all add: lower_def)
  then have "take (length pat) s = w @ '':''" "lower w = p"
    using wd by (simp_all add: lower_char_colon)
  then have "s = w @ '':'' @ drop (length pat) s \<and> lower w = p"
    by (metis append_take_drop_id append.assoc)
  then show "\<exists>w post. s = w @ '':'' @ post \<and> lower w = p"
    by blast
next
  have len: "length pat = Suc (length p)"
    using arg_cong [OF pat, of length] by (simp add: lower_def)
  assume "\<exists>w post. s = w @ '':'' @ post \<and> lower w = p"
  then obtain w post where s: "s = w @ '':'' @ post" "lower w = p"
    by blast
  then have "length w = length p"
    by (auto simp: lower_def)
  then have tk: "take (length pat) s = w @ '':''"
    by (simp add: s(1) len)
  have "lower_char (CHR '':'') = CHR '':''"
    by (simp add: lower_char_def)
  then have "lower (w @ '':'') = p @ '':''"
    using s(2) by (simp add: lower_def)
  then show "imatch pat s"
    by (simp only: imatch_def tk pat)
qed

lemma fwd_word_start:
  assumes "lower w = ''fwd'' \<or> lower w = ''fw''"
  shows "w \<noteq> [] \<and> isword (hd w)"
proof -
  obtain c cs where "w = c # cs" "lower_char c = CHR ''f''"
    using assms by (cases w) (auto simp: lower_def)
  then show ?thesis
    by (simp add: lower_char_f)
qed

lemma search_fwd_iff:
  "search_fwd prev s \<longleftrightarrow>
     (\<exists>pre w post. s = pre @ w @ '':'' @ post \<and> (lower w = ''fwd'' \<or> lower w = ''fw'')
        \<and> (if pre = [] then \<not> prev else \<not> isword (last pre)))"
proof (induction s arbitrary: prev)
  case Nil
  show ?case by simp
next
  case (Cons c cs)
  let ?word = "\<lambda>w. lower w = ''fwd'' \<or> lower w = ''fw''"
  have here: "(imatch ''Fwd:'' (c # cs) \<or> imatch ''FW:'' (c # cs))
      \<longleftrightarrow> (\<exists>w post. c # cs = w @ '':'' @ post \<and> ?word w)"
    by (auto simp: imatch_iff [OF lower_patterns(1)] imatch_iff [OF lower_patterns(2)])
  have start: "isword c" if "c # cs = w @ '':'' @ post" "?word w" for w post
    using fwd_word_start [OF that(2)] that(1) by (cases w) auto
  have split: "(\<exists>pre w post. c # cs = pre @ w @ '':'' @ post \<and> ?word w
        \<and> (if pre = [] then \<not> prev else \<not> isword (last pre)))
      \<longleftrightarrow> (\<not> prev \<and> (\<exists>w post. c # cs = w @ '':'' @ post \<and> ?word w))
        \<or> (\<exists>pre w post. cs = pre @ w @ '':'' @ post \<and> ?word w
            \<and> (if pre = [] then \<not> isword c else \<not> isword (last pre)))"
    (is "?L \<longleftrightarrow> ?A \<or> ?B")
  proof
    assume ?L
    then obtain pre w post where h: "c # cs = pre @ w @ '':'' @ post" "?word w"
        "if pre = [] then \<not> prev else \<not> isword (last pre)"
      by blast
    show "?A \<or> ?B"
    proof (cases pre)
      case Nil
      then show ?thesis using h by auto
    next
      case (Cons p ps)
      then have "cs = ps @ w @ '':'' @ post" "p = c"
        using h(1) by simp_all
      moreover have "if ps = [] then \<not> isword c else \<not> isword (last ps)"
        using h(3) Cons \<open>p = c\<close> by (simp split: if_splits)
      ultimately have ?B using h(2) by blast
      then show ?thesis ..
    qed
  next
    assume "?A \<or> ?B"
    then show ?L
    proof
      assume ?A
      then obtain w post where "c # cs = [] @ w @ '':'' @ post" "?word w" "\<not> prev"
        by auto
      then show ?L by (metis (full_types))
    next
      assume ?B
      then obtain pre w post where h: "cs = pre @ w @ '':'' @ post" "?word w"
          "if pre = [] then \<not> isword c else \<not> isword (last pre)"
        by blast
      have "c # cs = (c # pre) @ w @ '':'' @ post"
        using h(1) by simp
      moreover have "if c # pre = [] then \<not> prev else \<not> isword (last (c # pre))"
        using h(3) by (simp split: if_splits)
      ultimately show ?L using h(2) by blast
    qed
  qed
  have "search_fwd prev (c # cs) \<longleftrightarrow>
      (prev \<noteq> isword c \<and> (\<exists>w post. c # cs = w @ '':'' @ post \<and> ?word w))
      \<or> search_fwd (isword c) cs"
    using here by simp
  also have "\<dots> \<longleftrightarrow> (\<not> prev \<and> (\<exists>w post. c # cs = w @ '':'' @ post \<and> ?word w))
      \<or> search_fwd (isword c) cs"
    using start by blast
  finally have "search_fwd prev (c # cs) \<longleftrightarrow>
      (\<not> prev \<and> (\<exists>w post. c # cs = w @ '':'' @ post \<and> ?word w))
      \<or> search_fwd (isword c) cs" .
  then show ?case
    by (simp only: split Cons.IH [of "isword c"])
qed

text \<open>
  The regular expression of main\_working\_1.py computes the flag as the specification
  words it.
\<close>

lemma forwarded_regex_spec:
  "forwarded_regex subject = (if forwarded_spec subject then ''Yes'' else ''No'')"
proof -
  have start: "(if pre = [] then \<not> False else \<not> isword (last pre))
      \<longleftrightarrow> (pre = [] \<or> \<not> isword (last pre))" for pre
    by simp
  have "search_fwd False subject \<longleftrightarrow> forwarded_spec subject"
    by (simp only: search_fwd_iff [of False subject] forwarded_spec_def start)
  then show ?thesis
    by (simp add: forwarded_regex_def)
qed



section \<open>Labels\<close>

lemma find_append_found: "find P xs = Some x \<Longrightarrow> find P (xs @ ys) = Some x"
  by (induction xs) (auto split: if_splits)

lemma find_append_new: "find P xs = None \<Longrightarrow> P y \<Longrightarrow> find P (xs @ y # ys) = Some y"
  by (induction xs) (auto split: if_splits)

lemma find_Some_in: "find P xs = Some x \<Longrightarrow> x \<in> set xs"
  by (induction xs) (auto split: if_splits)

lemma find_label_in:
  "find_label labels n = Some i \<Longrightarrow> \<exists>lbl\<in>set labels. fst lbl = i"
  by (force simp: find_label_def dest: find_Some_in)

lemma ensure_label_cases:
  assumes "ensure_label e n w = (Inr i, w')"
  shows "(find_label (remote_labels w) n = Some i \<and> i \<noteq> []
           \<and> remote_labels w' = remote_labels w
           \<and> trace w' = trace w @ [Called ListLabels])
       \<or> ((find_label (remote_labels w) n = None \<or> find_label (remote_labels w) n = Some [])
           \<and> i = new_label_id e (remote_labels w) n
           \<and> remote_labels w' = remote_labels w @ [(i, n)]
           \<and> trace w' = trace w @ [Called ListLabels, Called (CreateLabel n)])"
  using assms
  by (auto simp: ensure_label_def list_labels_def create_label_def outside_def io_bind_def
      io_return_def Let_def split: if_splits option.splits)

lemma create_calls_simps:
  "create_calls [] = 0"
  "create_calls [Called ListLabels] = 0"
  "create_calls [Called ListLabels, Called (CreateLabel n)] = 1"
  by (simp_all add: create_calls_def)

text \<open>
  C5. Two calls of \<open>ensure_label\<close> with names that are equal in lower case, the second
  after the first with labels at most added to the mailbox in between, resolve to the
  same label id, and the two calls together make at most one create call. The mailbox
  gives no label the empty id.
\<close>

theorem ensure_label_case_insensitive:
  assumes "lower a = lower b"
    and "\<forall>lbl\<in>set (remote_labels w). fst lbl \<noteq> []"
    and "new_label_id e (remote_labels w) a \<noteq> []"
    and "ensure_label e a w = (Inr i1, w1)"
    and "prefix (remote_labels w1) (remote_labels w1')"
    and "ensure_label e b w1' = (Inr i2, w2)"
  shows "i2 = i1
     \<and> create_calls (drop (length (trace w)) (trace w1))
       + create_calls (drop (length (trace w1')) (trace w2)) \<le> 1"
proof -
  let ?P = "\<lambda>lbl. lower (snd lbl) = lower b"
  have no_empty: "find_label (remote_labels w) a \<noteq> Some []"
    using assms(2) find_label_in by fastforce
  obtain ext where ext: "remote_labels w1' = remote_labels w1 @ ext"
    using assms(5) by (auto simp: prefix_def)
  from ensure_label_cases [OF assms(4)]
  consider (found) "find_label (remote_labels w) a = Some i1" "i1 \<noteq> []"
      "remote_labels w1 = remote_labels w" "trace w1 = trace w @ [Called ListLabels]"
    | (created) "find_label (remote_labels w) a = None \<or> find_label (remote_labels w) a = Some []"
      "i1 = new_label_id e (remote_labels w) a"
      "remote_labels w1 = remote_labels w @ [(i1, a)]"
      "trace w1 = trace w @ [Called ListLabels, Called (CreateLabel a)]"
    by blast
  then have first: "find_label (remote_labels w1) b = Some i1 \<and> i1 \<noteq> []
      \<and> create_calls (drop (length (trace w)) (trace w1)) \<le> 1"
  proof cases
    case found
    then show ?thesis
      using assms(1) by (simp add: find_label_def create_calls_simps)
  next
    case created
    then have "find ?P (remote_labels w) = None"
      using no_empty assms(1) by (simp add: find_label_def)
    then have "find ?P (remote_labels w @ (i1, a) # []) = Some (i1, a)"
      using assms(1) by (intro find_append_new) simp_all
    then show ?thesis
      using created assms(3) by (simp add: find_label_def create_calls_simps)
  qed
  then obtain lbl where "find ?P (remote_labels w1) = Some lbl" "fst lbl = i1"
    by (auto simp: find_label_def)
  then have second: "find_label (remote_labels w1') b = Some i1"
    by (simp add: ext find_label_def find_append_found)
  have "i2 = i1 \<and> trace w2 = trace w1' @ [Called ListLabels]"
    using ensure_label_cases [OF assms(6)] second first by auto
  then show ?thesis
    using first by (simp add: create_calls_simps)
qed

theorem ensure_label_case_insensitive_witness:
  "fst (ensure_label sample_env ''work'' sample_world) = Inr ''Label_1''
   \<and> fst (ensure_label sample_env ''Work'' (snd (ensure_label sample_env ''work'' sample_world)))
       = Inr ''Label_1''
   \<and> create_calls (trace (snd (ensure_label sample_env ''Work''
        (snd (ensure_label sample_env ''work'' sample_world))))) \<le> 1"
proof -
  define w1 where "w1 = sample_world\<lparr>remote_labels := [(''Label_1'', ''work'')],
      trace := [Called ListLabels, Called (CreateLabel ''work'')]\<rparr>"
  define w2 where "w2 = w1\<lparr>trace := trace w1 @ [Called ListLabels]\<rparr>"
  have l: "lower ''work'' = lower ''Work''"
    by code_simp
  have ids: "\<forall>lbl\<in>set (remote_labels sample_world). fst lbl \<noteq> []"
    by (simp add: sample_world_def)
  have new: "new_label_id sample_env (remote_labels sample_world) ''work'' \<noteq> []"
    by (simp add: sample_env_def)
  have r1: "ensure_label sample_env ''work'' sample_world = (Inr ''Label_1'', w1)"
    by (simp add: w1_def ensure_label_def list_labels_def create_label_def outside_def
        io_bind_def io_return_def find_label_def sample_env_def sample_world_def Let_def)
  have r2: "ensure_label sample_env ''Work'' w1 = (Inr ''Label_1'', w2)"
    using l
    by (simp add: w1_def w2_def ensure_label_def list_labels_def outside_def io_bind_def
        io_return_def find_label_def sample_env_def sample_world_def)
  have t: "trace sample_world = []" "trace w1 = [Called ListLabels, Called (CreateLabel ''work'')]"
      "trace w2 = [Called ListLabels, Called (CreateLabel ''work''), Called ListLabels]"
    by (simp_all add: w1_def w2_def sample_world_def)
  from ensure_label_case_insensitive [OF l ids new r1 _ r2]
  have "create_calls (drop (length (trace sample_world)) (trace w1))
       + create_calls (drop (length (trace w1)) (trace w2)) \<le> 1"
    by simp
  then have "create_calls (trace w2) \<le> 1"
    by (simp add: t create_calls_def)
  then show ?thesis
    using r1 r2 by simp
qed

section \<open>The order of effects in a run\<close>

subsection \<open>Steps and their events\<close>

lemma emits_return: "P [] \<Longrightarrow> emits (io_return x) P"
  by (simp add: emits_def io_return_def)

lemma emits_raise: "P [] \<Longrightarrow> emits (io_raise err) P"
  by (simp add: emits_def io_raise_def)

lemma emits_outside: "P [Called c] \<Longrightarrow> emits (outside e c) P"
  by (simp add: emits_def outside_def Let_def)

lemma emits_weaken: "emits m P \<Longrightarrow> (\<And>evs. P evs \<Longrightarrow> Q evs) \<Longrightarrow> emits m Q"
  unfolding emits_def by blast

lemma emits_bind:
  assumes m: "emits m P" and f: "\<And>x. emits (f x) Q"
    and both: "\<And>a b. P a \<Longrightarrow> Q b \<Longrightarrow> R (a @ b)" and first: "\<And>a. P a \<Longrightarrow> R a"
  shows "emits (io_bind m f) R"
  unfolding emits_def
proof
  fix w
  obtain a where a: "trace (snd (m w)) = trace w @ a" "P a"
      "Called WriteCsv \<in> set a \<or> emails_csv (snd (m w)) = emails_csv w"
    using m unfolding emits_def by blast
  obtain r w' where mw: "m w = (r, w')"
    by (cases "m w")
  show "\<exists>evs. trace (snd (io_bind m f w)) = trace w @ evs \<and> R evs
      \<and> (Called WriteCsv \<in> set evs \<or> emails_csv (snd (io_bind m f w)) = emails_csv w)"
  proof (cases r)
    case (Inl err)
    then have "io_bind m f w = (Inl err, w')"
      using mw by (simp add: io_bind_def)
    then show ?thesis
      using a mw first by auto
  next
    case (Inr x)
    then have eq: "io_bind m f w = f x w'"
      using mw by (simp add: io_bind_def)
    obtain b where b: "trace (snd (f x w')) = trace w' @ b" "Q b"
        "Called WriteCsv \<in> set b \<or> emails_csv (snd (f x w')) = emails_csv w'"
      using f unfolding emits_def by blast
    have "trace (snd (io_bind m f w)) = trace w @ (a @ b)"
      using a(1) b(1) mw eq by simp
    moreover have "R (a @ b)"
      using a(2) b(2) both by simp
    moreover have "Called WriteCsv \<in> set (a @ b) \<or> emails_csv (snd (io_bind m f w)) = emails_csv w"
      using a(3) b(3) mw eq by auto
    ultimately show ?thesis
      by blast
  qed
qed


lemma emits_events:
  assumes "emits m P"
  shows "P (drop (length (trace w)) (trace (snd (m w))))"
proof -
  obtain evs where "trace (snd (m w)) = trace w @ evs" "P evs"
    using assms unfolding emits_def by blast
  then show ?thesis by simp
qed

subsection \<open>Quiet events\<close>

lemma quiet_simps:
  "quiet []" "quiet (a @ b) = (quiet a \<and> quiet b)" "quiet (ev # evs) = (is_quiet ev \<and> quiet evs)"
  by (simp_all add: quiet_def)

lemma quiet_no_write: "quiet q \<Longrightarrow> Called WriteCsv \<notin> set q"
  by (induction q) (auto simp: quiet_simps)

lemma marked_quiet:
  "quiet q \<Longrightarrow> marked_after_appended seen (q @ es) = marked_after_appended seen es"
proof (induction q)
  case Nil
  then show ?case by simp
next
  case (Cons ev q)
  then show ?case
    by (cases ev rule: is_quiet.cases) (simp_all add: quiet_simps)
qed

lemma marked_append:
  "marked_after_appended seen a \<Longrightarrow> (\<And>s. marked_after_appended s b) \<Longrightarrow>
   marked_after_appended seen (a @ b)"
  by (induction seen a rule: marked_after_appended.induct) simp_all

lemma no_mark_marked: "no_mark b \<Longrightarrow> marked_after_appended s b"
  by (induction s b rule: marked_after_appended.induct) (simp_all add: no_mark_def)

lemma no_mark_stored: "no_mark b \<Longrightarrow> stored_after_marks st b"
  by (induction st b rule: stored_after_marks.induct) (simp_all add: no_mark_def)

lemma stored_no_write:
  "Called WriteCsv \<notin> set a \<Longrightarrow> stored_after_marks False (a @ b) = stored_after_marks False b"
  by (induction "False" a rule: stored_after_marks.induct) simp_all

lemma quiet_marked: "quiet q \<Longrightarrow> marked_after_appended seen q"
  using marked_quiet [of q seen "[]"] by simp

lemma quiet_loop_ok: "quiet q \<Longrightarrow> loop_ok q"
  by (simp add: loop_ok_def quiet_no_write quiet_marked)

lemma loop_ok_append: "loop_ok a \<Longrightarrow> loop_ok b \<Longrightarrow> loop_ok (a @ b)"
  by (simp add: loop_ok_def marked_append)

lemma loop_ok_Nil: "loop_ok []"
  by (simp add: loop_ok_def)

lemma message_events_loop_ok: "message_events m evs \<Longrightarrow> loop_ok evs"
  by (auto simp: message_events_def loop_ok_def marked_quiet quiet_marked quiet_no_write)

lemma message_events_prepend:
  "quiet a \<Longrightarrow> message_events m b \<Longrightarrow> message_events m (a @ b)"
  unfolding message_events_def
  by (metis append.assoc quiet_simps(2))

lemma message_events_quiet: "quiet a \<Longrightarrow> message_events m a"
  by (auto simp: message_events_def)

lemma emits_bind_message:
  "emits m quiet \<Longrightarrow> (\<And>x. emits (f x) (message_events k)) \<Longrightarrow>
   emits (io_bind m f) (message_events k)"
  by (rule emits_bind [where P = quiet and Q = "message_events k"])
    (simp_all add: message_events_prepend message_events_quiet)

lemma emits_bind_quiet:
  "emits m quiet \<Longrightarrow> (\<And>x. emits (f x) quiet) \<Longrightarrow> emits (io_bind m f) quiet"
  by (rule emits_bind [where P = quiet and Q = quiet]) (simp_all add: quiet_simps)

subsection \<open>The steps of the orchestrator\<close>

lemma get_message_quiet: "emits (get_message e m) quiet"
  by (auto simp: emits_def get_message_def io_bind_def outside_def quiet_simps Let_def
      split: option.splits)

lemma list_labels_quiet: "emits (list_labels e) quiet"
  by (auto simp: emits_def list_labels_def io_bind_def outside_def quiet_simps Let_def)

lemma create_label_quiet: "emits (create_label e n) quiet"
  by (auto simp: emits_def create_label_def io_bind_def outside_def quiet_simps Let_def)

lemma add_label_quiet: "emits (add_label e m i) quiet"
  by (auto simp: emits_def add_label_def io_bind_def outside_def quiet_simps Let_def)

lemma ensure_label_quiet: "emits (ensure_label e n) quiet"
  unfolding ensure_label_def
  by (rule emits_bind_quiet [OF list_labels_quiet])
    (auto simp: create_label_quiet emits_return quiet_simps split: option.splits)

lemma move_to_label_quiet: "emits (move_to_label e m n) quiet"
  unfolding move_to_label_def
  by (rule emits_bind_quiet [OF ensure_label_quiet]) (rule add_label_quiet)

lemma append_mark_events:
  "emits (io_bind (append_row m rs row) (\<lambda>rs'. io_bind (mark_read e m) (\<lambda>_. io_return rs')))
     (message_events m)"
proof -
  have "message_events m ([] @ [RowAppended m, Called (MarkRead m)])"
    unfolding message_events_def using quiet_simps(1) by blast
  then show ?thesis
    by (auto simp: emits_def io_bind_def append_row_def mark_read_def outside_def io_return_def
        Let_def)
qed

lemma process_message_events: "emits (process_message e labels_list m rs) (message_events m)"
  unfolding process_message_def
proof (rule emits_bind_message [OF get_message_quiet])
  fix full_msg :: raw_message
  have msg_nil: "message_events m []"
    by (simp add: message_events_quiet quiet_simps)
  have label: "emits (if category \<noteq> ''Other'' then move_to_label e m category else io_return ())
      quiet" for category
    by (simp add: move_to_label_quiet emits_return quiet_simps)
  have after: "emits
      (io_bind (if category \<noteq> ''Other'' then move_to_label e m category else io_return ())
         (\<lambda>_. case internalDate full_msg of
                 None \<Rightarrow> io_raise KeyError
               | Some internal \<Rightarrow>
                   (case py_int internal of
                      Inl err \<Rightarrow> io_raise err
                    | Inr timestamp \<Rightarrow>
                        (case to_datetime timestamp of
                           Inl err \<Rightarrow> io_raise err
                         | Inr date \<Rightarrow>
                             io_bind (append_row m rs (row date))
                               (\<lambda>rs'. io_bind (mark_read e m) (\<lambda>_. io_return rs'))))))
      (message_events m)" for category row
    by (rule emits_bind_message [OF label])
      (simp add: emits_raise msg_nil append_mark_events split: option.split sum.split)
  show "emits
     (case headers full_msg of
        None \<Rightarrow> io_raise KeyError
      | Some hs \<Rightarrow>
          (let subject = header_value hs ''Subject'' ''(No Subject)'';
               sender_full = header_value hs ''From'' ''(Unknown Sender)'';
               (sender_name, sender_email) = parse_email sender_full;
               to_full = header_value hs ''To'' '''';
               to_email = snd (parse_email to_full);
               body = get_email_body (decode e) full_msg;
               fwd = forwarded subject;
               (attachment, attachment_names) = attachments full_msg;
               sect = get_section (case labelIds full_msg of Some ids \<Rightarrow> ids | None \<Rightarrow> [])
           in case categorize_email (ollama e) (subject @ [newline] @ body) labels_list of
                Inl err \<Rightarrow> io_raise err
              | Inr category \<Rightarrow>
                  io_bind (if category \<noteq> ''Other'' then move_to_label e m category
                           else io_return ())
                    (\<lambda>_. case internalDate full_msg of
                            None \<Rightarrow> io_raise KeyError
                          | Some internal \<Rightarrow>
                              (case py_int internal of
                                 Inl err \<Rightarrow> io_raise err
                               | Inr timestamp \<Rightarrow>
                                   (case to_datetime timestamp of
                                      Inl err \<Rightarrow> io_raise err
                                    | Inr date \<Rightarrow>
                                        io_bind
                                          (append_row m rs
                                             [Str sender_name, Str sender_email, Str to_email,
                                              Str fwd, Str subject, Str body, Str sect,
                                              Str attachment, Str attachment_names,
                                              Str (date_text e date),
                                              Flt (time_taken e m), Str category])
                                          (\<lambda>rs'. io_bind (mark_read e m)
                                                    (\<lambda>_. io_return rs')))))))
     (message_events m)"
    by (simp add: Let_def emits_raise msg_nil after split: option.split sum.split prod.split)
qed

lemma process_messages_Cons:
  "process_messages e labels_list (m # ms) rs =
     io_bind (process_message e labels_list m rs) (process_messages e labels_list ms)"
  by (rule ext) (simp add: io_bind_def split: prod.splits sum.splits)

lemma process_messages_events: "emits (process_messages e labels_list ms rs) loop_ok"
proof (induction ms arbitrary: rs)
  case Nil
  have "process_messages e labels_list [] rs = io_return rs"
    by (rule ext) (simp add: io_return_def)
  then show ?case
    by (simp add: emits_return loop_ok_Nil)
next
  case (Cons m ms)
  show ?case
    unfolding process_messages_Cons
    by (rule emits_bind [OF process_message_events Cons.IH])
      (simp_all add: message_events_loop_ok loop_ok_append)
qed

lemma load_labels_quiet: "emits (load_labels e) quiet"
  by (auto simp: emits_def load_labels_def io_bind_def io_return_def outside_def quiet_simps
      Let_def split: option.splits)

lemma gmail_authenticate_quiet: "emits (gmail_authenticate e) quiet"
  by (simp add: gmail_authenticate_def emits_outside quiet_simps)

lemma list_unread_quiet: "emits (list_unread e) quiet"
  by (auto simp: emits_def list_unread_def io_bind_def outside_def quiet_simps Let_def)

lemma written_last_no_write:
  "Called WriteCsv \<notin> set a \<Longrightarrow> written_last (a @ b) = written_last b"
  by (induction a rule: written_last.induct) simp_all

lemma store_tail_Nil: "store_tail []"
  by (simp add: store_tail_def no_mark_def)

lemma append_to_csv_events: "emits (append_to_csv e rs) store_tail"
  by (auto simp: emits_def append_to_csv_def read_csv_def to_csv_def io_bind_def io_return_def
      outside_def store_tail_def no_mark_def Let_def split: option.splits)

lemma run_ok_intros:
  "loop_ok a \<Longrightarrow> run_ok a"
  "loop_ok a \<Longrightarrow> store_tail b \<Longrightarrow> run_ok (a @ b)"
  "loop_ok a \<Longrightarrow> run_ok b \<Longrightarrow> run_ok (a @ b)"
proof -
  show "loop_ok a \<Longrightarrow> run_ok a"
    unfolding run_ok_def using store_tail_Nil by (metis append_Nil2)
  show "loop_ok a \<Longrightarrow> store_tail b \<Longrightarrow> run_ok (a @ b)"
    unfolding run_ok_def by blast
  show "loop_ok a \<Longrightarrow> run_ok b \<Longrightarrow> run_ok (a @ b)"
    unfolding run_ok_def by (metis append.assoc loop_ok_append)
qed

lemma fetch_and_process_emails_events: "emits (fetch_and_process_emails e) run_ok"
proof -
  have store: "emits (io_bind (append_to_csv e rs) (\<lambda>_. io_return (Processed (length rs))))
      store_tail" for rs
    by (rule emits_bind [OF append_to_csv_events, where Q = "\<lambda>evs. evs = []"])
      (simp_all add: emits_return)
  have loop: "emits (io_bind (process_messages e labels_list messages [])
      (\<lambda>rs. io_bind (append_to_csv e rs) (\<lambda>_. io_return (Processed (length rs))))) run_ok"
    for labels_list messages
    by (rule emits_bind [OF process_messages_events store]) (simp_all add: run_ok_intros)
  have batch: "emits (if messages = [] then io_return NoUnread
      else io_bind (process_messages e labels_list messages [])
        (\<lambda>rs. io_bind (append_to_csv e rs) (\<lambda>_. io_return (Processed (length rs))))) run_ok"
    for labels_list messages
    using loop by (simp add: emits_return run_ok_intros(1) loop_ok_Nil)
  have listed: "emits (io_bind (list_unread e) (\<lambda>messages.
      if messages = [] then io_return NoUnread
      else io_bind (process_messages e labels_list messages [])
        (\<lambda>rs. io_bind (append_to_csv e rs) (\<lambda>_. io_return (Processed (length rs)))))) run_ok"
    for labels_list
    by (rule emits_bind [OF list_unread_quiet batch])
      (simp_all add: run_ok_intros quiet_loop_ok)
  have authed: "emits (io_bind (gmail_authenticate e) (\<lambda>_. io_bind (list_unread e) (\<lambda>messages.
      if messages = [] then io_return NoUnread
      else io_bind (process_messages e labels_list messages [])
        (\<lambda>rs. io_bind (append_to_csv e rs) (\<lambda>_. io_return (Processed (length rs))))))) run_ok"
    for labels_list
    by (rule emits_bind [OF gmail_authenticate_quiet listed])
      (simp_all add: run_ok_intros quiet_loop_ok)
  show ?thesis
    unfolding fetch_and_process_emails_def
    by (rule emits_bind [OF load_labels_quiet authed])
      (simp_all add: run_ok_intros quiet_loop_ok)
qed

subsection \<open>A run that succeeds\<close>

lemma io_bind_Inr:
  "io_bind m f w = (Inr y, w') \<Longrightarrow> \<exists>x w1. m w = (Inr x, w1) \<and> f x w1 = (Inr y, w')"
  by (auto simp: io_bind_def split: prod.splits sum.splits)

lemma emits_extends:
  assumes "emits m P" and "m w = (r, w')"
  shows "\<exists>evs. trace w' = trace w @ evs"
  using assms unfolding emits_def by (metis snd_conv)

lemma append_to_csv_Inr:
  assumes "append_to_csv e rs w = (Inr u, w')"
  shows "\<exists>evs. trace w' = trace w @ evs @ [Called WriteCsv]"
proof (cases "emails_csv w")
  case None
  then have "trace w' = trace w @ [] @ [Called WriteCsv]"
    using assms
    by (auto simp: append_to_csv_def to_csv_def io_bind_def io_return_def outside_def Let_def
        split: if_splits)
  then show ?thesis by blast
next
  case (Some old)
  then have "trace w' = trace w @ [Called ReadCsv] @ [Called WriteCsv]"
    using assms
    by (auto simp: append_to_csv_def read_csv_def to_csv_def io_bind_def io_return_def
        outside_def Let_def split: if_splits)
  then show ?thesis by blast
qed

lemma run_success:
  assumes "fetch_and_process_emails e w = (Inr (Processed n), w')"
  shows "\<exists>evs. trace w' = trace w @ evs @ [Called WriteCsv]"
proof -
  from io_bind_Inr [OF assms [unfolded fetch_and_process_emails_def]]
  obtain labels_list wa where a: "load_labels e w = (Inr labels_list, wa)"
    and ra: "io_bind (gmail_authenticate e) (\<lambda>_. io_bind (list_unread e) (\<lambda>messages.
      if messages = [] then io_return NoUnread
      else io_bind (process_messages e labels_list messages [])
        (\<lambda>rs. io_bind (append_to_csv e rs) (\<lambda>_. io_return (Processed (length rs)))))) wa
      = (Inr (Processed n), w')"
    by blast
  from io_bind_Inr [OF ra]
  obtain wb where b: "gmail_authenticate e wa = (Inr (), wb)"
    and rb: "io_bind (list_unread e) (\<lambda>messages.
      if messages = [] then io_return NoUnread
      else io_bind (process_messages e labels_list messages [])
        (\<lambda>rs. io_bind (append_to_csv e rs) (\<lambda>_. io_return (Processed (length rs))))) wb
      = (Inr (Processed n), w')"
    by auto
  from io_bind_Inr [OF rb]
  obtain messages wc where c: "list_unread e wb = (Inr messages, wc)"
    and rc: "(if messages = [] then io_return NoUnread
      else io_bind (process_messages e labels_list messages [])
        (\<lambda>rs. io_bind (append_to_csv e rs) (\<lambda>_. io_return (Processed (length rs))))) wc
      = (Inr (Processed n), w')"
    by blast
  have "messages \<noteq> []"
    using rc by (auto simp: io_return_def)
  then have rd: "io_bind (process_messages e labels_list messages [])
        (\<lambda>rs. io_bind (append_to_csv e rs) (\<lambda>_. io_return (Processed (length rs)))) wc
      = (Inr (Processed n), w')"
    using rc by simp
  from io_bind_Inr [OF rd]
  obtain rs w1 where d: "process_messages e labels_list messages [] wc = (Inr rs, w1)"
    and re: "io_bind (append_to_csv e rs) (\<lambda>_. io_return (Processed (length rs))) w1
      = (Inr (Processed n), w')"
    by blast
  from io_bind_Inr [OF re]
  obtain u where f: "append_to_csv e rs w1 = (Inr u, w')"
    by (auto simp: io_return_def)
  obtain p1 where "trace wa = trace w @ p1"
    using emits_extends [OF load_labels_quiet a] by blast
  moreover obtain p2 where "trace wb = trace wa @ p2"
    using emits_extends [OF gmail_authenticate_quiet b] by blast
  moreover obtain p3 where "trace wc = trace wb @ p3"
    using emits_extends [OF list_unread_quiet c] by blast
  moreover obtain p4 where "trace w1 = trace wc @ p4"
    using emits_extends [OF process_messages_events d] by blast
  moreover obtain p5 where "trace w' = trace w1 @ p5 @ [Called WriteCsv]"
    using append_to_csv_Inr [OF f] by blast
  ultimately have "trace w' = trace w @ (p1 @ p2 @ p3 @ p4 @ p5) @ [Called WriteCsv]"
    by simp
  then show ?thesis
    by blast
qed

text \<open>
  C2, as the code has it. In every run a message is marked read only after its row has
  been appended to the list of rows the run keeps in memory, and no message is marked
  read after a write of the record store. The record store is written at most once, and
  the write is the last effect of the run: nothing is appended, marked read or called
  after it. A run that returns the number of processed messages has written the store,
  as its last effect.
\<close>

theorem marked_read_after_row_appended:
  "marked_after_appended [] (run_events e w) \<and> stored_after_marks False (run_events e w)
   \<and> written_last (run_events e w)
   \<and> (fst (fetch_and_process_emails e w) = Inr (Processed n) \<longrightarrow>
        run_events e w \<noteq> [] \<and> last (run_events e w) = Called WriteCsv)"
proof -
  obtain a b where ab: "run_events e w = a @ b" "loop_ok a" "store_tail b"
    using emits_events [OF fetch_and_process_emails_events, where w = w and e1 = e]
    unfolding run_events_def run_ok_def by blast
  have "marked_after_appended [] (a @ b)"
    using ab(2,3) by (intro marked_append) (simp_all add: loop_ok_def store_tail_def no_mark_marked)
  moreover have "stored_after_marks False (a @ b)"
    using ab(2,3) by (simp add: loop_ok_def store_tail_def stored_no_write no_mark_stored)
  moreover have "written_last (a @ b)"
    using ab(2,3) by (simp add: loop_ok_def store_tail_def written_last_no_write)
  moreover have "run_events e w \<noteq> [] \<and> last (run_events e w) = Called WriteCsv"
    if "fst (fetch_and_process_emails e w) = Inr (Processed n)"
  proof -
    have "fetch_and_process_emails e w = (Inr (Processed n), snd (fetch_and_process_emails e w))"
      using that by (metis prod.collapse)
    from run_success [OF this]
    obtain evs where "trace (snd (fetch_and_process_emails e w)) = trace w @ evs @ [Called WriteCsv]"
      by blast
    then have "run_events e w = evs @ [Called WriteCsv]"
      by (simp add: run_events_def)
    then show ?thesis
      by simp
  qed
  ultimately show ?thesis
    by (simp add: ab(1))
qed

theorem marked_read_after_row_appended_witness:
  "run_events sample_env sample_world =
     [Called LoadConfig, Called Authenticate, Called ListUnread,
      Called (GetMessage ''m1''), Called ListLabels, Called (CreateLabel ''Invoices''),
      Called (AddLabel ''m1'' ''Label_1''), RowAppended ''m1'', Called (MarkRead ''m1''),
      Called (GetMessage ''m2''), Called ListLabels, Called (AddLabel ''m2'' ''Label_1''),
      RowAppended ''m2'', Called (MarkRead ''m2''), Called WriteCsv]
   \<and> marked_after_appended [] (run_events sample_env sample_world)
   \<and> stored_after_marks False (run_events sample_env sample_world)
   \<and> written_last (run_events sample_env sample_world)
   \<and> last (run_events sample_env sample_world) = Called WriteCsv"
proof -
  have "run_events sample_env sample_world =
     [Called LoadConfig, Called Authenticate, Called ListUnread,
      Called (GetMessage ''m1''), Called ListLabels, Called (CreateLabel ''Invoices''),
      Called (AddLabel ''m1'' ''Label_1''), RowAppended ''m1'', Called (MarkRead ''m1''),
      Called (GetMessage ''m2''), Called ListLabels, Called (AddLabel ''m2'' ''Label_1''),
      RowAppended ''m2'', Called (MarkRead ''m2''), Called WriteCsv]"
    by code_simp
  moreover have "fst (fetch_and_process_emails sample_env sample_world) = Inr (Processed 2)"
    by code_simp
  ultimately show ?thesis
    using marked_read_after_row_appended [of sample_env sample_world 2] by simp
qed

text \<open>
  C2, as stated, fails. In the run over the sample mailbox both messages are marked
  read before the store is written. When the fetch of the second message raises, the run
  ends with the first message marked read and no store written at all.
\<close>

theorem marked_read_before_stored:
  "\<not> marked_after_stored False (run_events sample_env sample_world)
   \<and> unread (snd (fetch_and_process_emails (fetch_fault_env ''m2'') sample_world)) = [''m2'']
   \<and> emails_csv (snd (fetch_and_process_emails (fetch_fault_env ''m2'') sample_world)) = None"
  by code_simp

section \<open>Faults in the loop\<close>





text \<open>
  A date that \<open>to_datetime\<close> rejects, or an \<open>internalDate\<close> that \<open>int\<close> rejects, raises after
  the label has been applied: no row is appended and the message stays unread.
\<close>

lemma date_fault_after_label:
  "process_message sample_env [''Invoices''] ''m1'' []
     (sample_world\<lparr>inbox := [(''m1'', sample_message\<lparr>internalDate := Some ''9223372036855''\<rparr>)]\<rparr>)
   = (Inl OutOfBoundsDatetime,
      sample_world\<lparr>inbox := [(''m1'', sample_message\<lparr>internalDate := Some ''9223372036855''\<rparr>)],
        remote_labels := [(''Label_1'', ''Invoices'')], applied := [(''m1'', ''Label_1'')],
        trace := [Called (GetMessage ''m1''), Called ListLabels, Called (CreateLabel ''Invoices''),
                  Called (AddLabel ''m1'' ''Label_1'')]\<rparr>)
   \<and> fst (process_message sample_env [''Invoices''] ''m1'' []
        (sample_world\<lparr>inbox := [(''m1'', sample_message\<lparr>internalDate := Some ''soon''\<rparr>)]\<rparr>))
     = Inl ValueError"
  by code_simp







end
